theory Spec2Isabelle
  imports Main
begin

section \<open>Host-language values\<close>

text \<open>
  The module \<^verbatim>\<open>src/user/delete.js\<close> only ever uses a uid through its string
  conversion: as a property key of \<^verbatim>\<open>deletesInProgress\<close>, inside template literals
  that build store keys, and as the argument of \<^verbatim>\<open>parseInt\<close>. A uid is therefore
  modelled by that string (the number 42 and the string "42" are both \<open>''42''\<close>).
  A character stands for one code unit below 256.
\<close>

type_synonym uid = string
type_synonym key = string

text \<open>A hash object as the store returns it: field names with string values.\<close>

type_synonym obj = "(string \<times> string) list"

definition isWhiteSpace :: "char \<Rightarrow> bool" where
  "isWhiteSpace c =
     (c \<in> set [CHR 0x09, CHR 0x0A, CHR 0x0B, CHR 0x0C, CHR 0x0D, CHR 0x20, CHR 0xA0])"

definition isDigit :: "char \<Rightarrow> bool" where
  "isDigit c = (48 \<le> (of_char c :: nat) \<and> (of_char c :: nat) \<le> 57)"

definition digitVal :: "char \<Rightarrow> nat" where
  "digitVal c = (of_char c :: nat) - 48"

text \<open>
  \<^verbatim>\<open>parseInt(x, 10)\<close>: leading white space is skipped, one sign is read, then the
  longest run of decimal digits; no digit at all gives NaN, which is \<open>None\<close> here.
  The result is the mathematical integer (the host language rounds magnitudes above
  \<open>2 ^ 53\<close> to the nearest double; the sign is the same).
\<close>

definition parseInt :: "string \<Rightarrow> int option" where
  "parseInt str =
     (let S = dropWhile isWhiteSpace str;
          neg = (case S of [] \<Rightarrow> False | c # _ \<Rightarrow> c = CHR ''-'');
          S1 = (case S of [] \<Rightarrow> [] | c # r \<Rightarrow> if c = CHR ''-'' \<or> c = CHR ''+'' then r else S);
          Z = takeWhile isDigit S1;
          n = int (foldl (\<lambda>a c. 10 * a + digitVal c) 0 Z)
      in if Z = [] then None else Some (if neg then - n else n))"

text \<open>\<^verbatim>\<open>parseInt(undefined, 10)\<close> reads the string "undefined": NaN.\<close>

definition parseInt_opt :: "string option \<Rightarrow> int option" where
  "parseInt_opt v = (case v of None \<Rightarrow> None | Some str \<Rightarrow> parseInt str)"

text \<open>\<^verbatim>\<open>a <= 0\<close> and \<^verbatim>\<open>a === b\<close> on numbers: every comparison with NaN is false.\<close>

definition num_le0 :: "int option \<Rightarrow> bool" where
  "num_le0 a = (case a of None \<Rightarrow> False | Some n \<Rightarrow> n \<le> 0)"

definition num_eq :: "int option \<Rightarrow> int option \<Rightarrow> bool" where
  "num_eq a b = (case a of None \<Rightarrow> False | Some n \<Rightarrow> (case b of None \<Rightarrow> False | Some m \<Rightarrow> n = m))"

definition lowerChar :: "char \<Rightarrow> char" where
  "lowerChar c =
     (let n = (of_char c :: nat)
      in if (65 \<le> n \<and> n \<le> 90) \<or> (192 \<le> n \<and> n \<le> 222 \<and> n \<noteq> 215)
         then char_of (n + 32) else c)"

definition toLowerCase :: "string \<Rightarrow> string" where
  "toLowerCase str = map lowerChar str"

text \<open>Truthiness of an optional string (\<open>None\<close> is \<^verbatim>\<open>undefined\<close>).\<close>

definition truthy :: "string option \<Rightarrow> bool" where
  "truthy v = (case v of None \<Rightarrow> False | Some str \<Rightarrow> str \<noteq> [])"

text \<open>Decimal rendering of a number, as the store keeps counters.\<close>

fun showNat :: "nat \<Rightarrow> string" where
  "showNat n = (if n < 10 then [char_of (48 + n)] else showNat (n div 10) @ [char_of (48 + n mod 10)])"

declare showNat.simps [simp del]

definition showInt :: "int \<Rightarrow> string" where
  "showInt i = (if i < 0 then CHR ''-'' # showNat (nat (- i)) else showNat (nat i))"

text \<open>\<^verbatim>\<open>_.uniq\<close>: the first occurrence of each element, in order.\<close>

definition uniq :: "'a list \<Rightarrow> 'a list" where
  "uniq xs = foldl (\<lambda>acc x. if x \<in> set acc then acc else acc @ [x]) [] xs"

section \<open>The deletion guard\<close>

text \<open>
  \<^verbatim>\<open>const deletesInProgress = {}\<close> is an ordinary object: a read of a key with no
  own property falls through to \<^verbatim>\<open>Object.prototype\<close>, whose properties are truthy
  objects, and an assignment to \<^verbatim>\<open>__proto__\<close> with a string creates no property.
\<close>

type_synonym guard = "string \<rightharpoonup> string"

datatype propval = Absent | Inherited | Own string

definition Object_prototype_props :: "string list" where
  "Object_prototype_props =
     [''constructor'', ''__defineGetter__'', ''__defineSetter__'', ''hasOwnProperty'',
      ''__lookupGetter__'', ''__lookupSetter__'', ''isPrototypeOf'',
      ''propertyIsEnumerable'', ''toString'', ''valueOf'', ''__proto__'',
      ''toLocaleString'']"

definition guard_get :: "guard \<Rightarrow> string \<Rightarrow> propval" where
  "guard_get g k =
     (case g k of
        Some v \<Rightarrow> Own v
      | None \<Rightarrow> if k \<in> set Object_prototype_props then Inherited else Absent)"

definition guard_truthy :: "propval \<Rightarrow> bool" where
  "guard_truthy p = (case p of Absent \<Rightarrow> False | Inherited \<Rightarrow> True | Own v \<Rightarrow> v \<noteq> [])"

definition guard_set :: "guard \<Rightarrow> string \<Rightarrow> string \<Rightarrow> guard" where
  "guard_set g k v = (if k = ''__proto__'' then g else g(k \<mapsto> v))"

definition guard_delete :: "guard \<Rightarrow> string \<Rightarrow> guard" where
  "guard_delete g k = g(k := None)"

section \<open>The store\<close>

text \<open>
  The store holds sorted sets (their members in score order), hash objects and plain
  sets under string keys. The database module is not part of \<^verbatim>\<open>src/user/delete.js\<close>;
  its operations are modelled below from the store contract of the specification.
\<close>

record store =
  zsets :: "key \<Rightarrow> string list"
  hashes :: "key \<Rightarrow> obj option"
  sets :: "key \<Rightarrow> string list"

datatype path = PathJoin "string list"

datatype dbcall =
    GetSortedSetRange "key list" nat int
  | GetSortedSetMembers key
  | GetObject key
  | GetObjects "key list"
  | SortedSetCard key
  | SortedSetsRemove "key list" string
  | SortedSetRemoveBulk "(key \<times> string option) list"
  | DecrObjectField key string
  | SetObjectField key string string
  | DeleteAll "key list"
  | Delete key
  | SetRemove key string
  | SetsRemove "key list" string

text \<open>Every operation the module hands to another module, with its arguments.\<close>

datatype call =
    Db dbcall
  | Exec path
  | Rimraf path
  | PostsPurge "string list" uid
  | TopicsPurge string uid
  | UserDeleteUpload uid uid "string list"
  | PostsRemoveFromQueue "string option"
  | PostsUnvote string uid
  | MessagingLeaveRooms uid "string list"
  | HooksFire string uid obj
  | RevokeAllSessions uid
  | GroupsLeaveAllGroups uid
  | FlagsResolveFlag string uid uid
  | ResetCleanByUid uid
  | EmailExpireValidation uid

datatype error = InvalidUid | AlreadyDeleting | NoUser | TypeError | Rejected call

datatype 'a result = Ok 'a | Throw error | OutOfFuel

record state =
  deletesInProgress :: guard
  db :: store
  calls :: "call list"

text \<open>
  The environment of a run: which awaited call rejects (by its position in the sequence
  of calls and its arguments), what a collaborator does to the store when it succeeds,
  and the configured upload path.
\<close>

record env =
  rejects :: "nat \<Rightarrow> call \<Rightarrow> bool"
  effect :: "call \<Rightarrow> store \<Rightarrow> store"
  upload_path :: string

type_synonym 'a prog = "state \<Rightarrow> 'a result \<times> state"

definition ret :: "'a \<Rightarrow> 'a prog" where
  "ret a s = (Ok a, s)"

definition throw :: "error \<Rightarrow> 'a prog" where
  "throw e s = (Throw e, s)"

text \<open>\<^verbatim>\<open>const a = await m; ...\<close>: a rejection of \<open>m\<close> skips the rest.\<close>

definition bnd :: "'a prog \<Rightarrow> ('a \<Rightarrow> 'b prog) \<Rightarrow> 'b prog" where
  "bnd m f s =
     (case m s of
        (Ok a, s1) \<Rightarrow> f a s1
      | (Throw e, s1) \<Rightarrow> (Throw e, s1)
      | (OutOfFuel, s1) \<Rightarrow> (OutOfFuel, s1))"

text \<open>
  An awaited call to another module: it is recorded, and it either rejects (the store
  is left as it was) or yields a result and a new store.
\<close>

definition ext :: "env \<Rightarrow> call \<Rightarrow> (store \<Rightarrow> 'a \<times> store) \<Rightarrow> 'a prog" where
  "ext env c sem s =
     (if rejects env (length (calls s)) c
      then (Throw (Rejected c), s\<lparr>calls := calls s @ [c]\<rparr>)
      else (case sem (db s) of (a, d) \<Rightarrow> (Ok a, s\<lparr>db := d, calls := calls s @ [c]\<rparr>)))"

definition collab :: "env \<Rightarrow> call \<Rightarrow> unit prog" where
  "collab env c = ext env c (\<lambda>d. ((), effect env c d))"

text \<open>\<^verbatim>\<open>async.eachSeries\<close>: one item at a time, stopping at the first rejection.\<close>

fun eachSeries :: "'a list \<Rightarrow> ('a \<Rightarrow> unit prog) \<Rightarrow> unit prog" where
  "eachSeries [] f = ret ()"
| "eachSeries (x # xs) f = bnd (f x) (\<lambda>_. eachSeries xs f)"

section \<open>Store operations\<close>

text \<open>Modelled from the spec: setting one field of a hash object, missing from the sources
  (the database module, like everything in this section).\<close>

definition setField :: "obj \<Rightarrow> string \<Rightarrow> string \<Rightarrow> obj" where
  "setField ob f v = (f, v) # filter (\<lambda>p. fst p \<noteq> f) ob"

text \<open>Modelled from the spec: the members of an ordered set from index start to index
  stop (inclusive; a negative stop counts from the end), missing from the sources.\<close>

definition zrange :: "string list \<Rightarrow> nat \<Rightarrow> int \<Rightarrow> string list" where
  "zrange xs start stop =
     (let n = int (length xs);
          e = (if stop < 0 then n + stop else stop)
      in take (nat (e + 1) - start) (drop start xs))"

text \<open>Modelled from the spec: the set read at one key, or the union of the sets read at
  several keys, missing from the sources.\<close>

definition zunion :: "store \<Rightarrow> key list \<Rightarrow> string list" where
  "zunion d ks = (case ks of [k] \<Rightarrow> zsets d k | _ \<Rightarrow> uniq (concat (map (zsets d) ks)))"

text \<open>Modelled from the spec: removal of a member from the ordered sets at the given keys
  (a no-op where it is not a member), missing from the sources.\<close>

definition zremove :: "key list \<Rightarrow> string \<Rightarrow> store \<Rightarrow> store" where
  "zremove ks v d = d\<lparr>zsets := fold (\<lambda>k z. z(k := removeAll v (z k))) ks (zsets d)\<rparr>"

text \<open>Modelled from the spec: removal of each (set, member) pair, missing from the sources.\<close>

fun zremoveBulk :: "(key \<times> string option) list \<Rightarrow> store \<Rightarrow> store" where
  "zremoveBulk [] d = d"
| "zremoveBulk ((k, None) # ps) d = zremoveBulk ps d"
| "zremoveBulk ((k, Some v) # ps) d = zremoveBulk ps (zremove [k] v d)"

text \<open>Modelled from the spec: deletion of whatever the store holds at the given keys,
  missing from the sources.\<close>

definition dropKeys :: "key list \<Rightarrow> store \<Rightarrow> store" where
  "dropKeys ks d =
     d\<lparr>zsets := fold (\<lambda>k z. z(k := [])) ks (zsets d),
       hashes := fold (\<lambda>k h. h(k := None)) ks (hashes d),
       sets := fold (\<lambda>k z. z(k := [])) ks (sets d)\<rparr>"

text \<open>Modelled from the spec: removal of a member from the plain sets at the given keys,
  missing from the sources.\<close>

definition sremove :: "key list \<Rightarrow> string \<Rightarrow> store \<Rightarrow> store" where
  "sremove ks v d = d\<lparr>sets := fold (\<lambda>k z. z(k := removeAll v (z k))) ks (sets d)\<rparr>"

text \<open>Modelled from the spec: object set-field on the store (the object is created when
  there is none), missing from the sources.\<close>

definition putField :: "key \<Rightarrow> string \<Rightarrow> string \<Rightarrow> store \<Rightarrow> store" where
  "putField k f v d =
     d\<lparr>hashes := (hashes d)(k := Some (setField (case hashes d k of None \<Rightarrow> [] | Some ob \<Rightarrow> ob) f v))\<rparr>"

text \<open>Modelled from the spec: object-field decrement on the store (a missing or
  non-numeric field counts as 0), missing from the sources.\<close>

definition decrField :: "key \<Rightarrow> string \<Rightarrow> store \<Rightarrow> store" where
  "decrField k f d =
     (let cur = (case hashes d k of None \<Rightarrow> None | Some ob \<Rightarrow> parseInt_opt (map_of ob f));
          n = (case cur of None \<Rightarrow> 0 | Some i \<Rightarrow> i)
      in putField k f (showInt (n - 1)) d)"

text \<open>Modelled from the spec: ordered-set range read (single and bulk-keyed; a negative
  stop counts from the end, several keys read their union), missing from the sources.\<close>

definition getSortedSetRange :: "env \<Rightarrow> key list \<Rightarrow> nat \<Rightarrow> int \<Rightarrow> string list prog" where
  "getSortedSetRange env ks start stop =
     ext env (Db (GetSortedSetRange ks start stop)) (\<lambda>d. (zrange (zunion d ks) start stop, d))"

text \<open>Modelled from the spec: read of a whole ordered set, missing from the sources.\<close>

definition getSortedSetMembers :: "env \<Rightarrow> key \<Rightarrow> string list prog" where
  "getSortedSetMembers env k = ext env (Db (GetSortedSetMembers k)) (\<lambda>d. (zsets d k, d))"

text \<open>Modelled from the spec: object get (null, here \<open>None\<close>, when there is no object),
  missing from the sources.\<close>

definition getObject :: "env \<Rightarrow> key \<Rightarrow> obj option prog" where
  "getObject env k = ext env (Db (GetObject k)) (\<lambda>d. (hashes d k, d))"

text \<open>Modelled from the spec: object get for a list of keys, missing from the sources.\<close>

definition getObjects :: "env \<Rightarrow> key list \<Rightarrow> obj option list prog" where
  "getObjects env ks = ext env (Db (GetObjects ks)) (\<lambda>d. (map (hashes d) ks, d))"

text \<open>Modelled from the spec: cardinality of an ordered set, missing from the sources.\<close>

definition sortedSetCard :: "env \<Rightarrow> key \<Rightarrow> nat prog" where
  "sortedSetCard env k = ext env (Db (SortedSetCard k)) (\<lambda>d. (length (zsets d k), d))"

text \<open>Modelled from the spec: ordered-set remove of one member from several sets
  (removing a non-member is a no-op), missing from the sources.\<close>

definition sortedSetsRemove :: "env \<Rightarrow> key list \<Rightarrow> string \<Rightarrow> unit prog" where
  "sortedSetsRemove env ks v = ext env (Db (SortedSetsRemove ks v)) (\<lambda>d. ((), zremove ks v d))"

text \<open>Modelled from the spec: bulk removal of (set, member) pairs, missing from the
  sources; a pair whose member is undefined removes nothing.\<close>

definition sortedSetRemoveBulk :: "env \<Rightarrow> (key \<times> string option) list \<Rightarrow> unit prog" where
  "sortedSetRemoveBulk env ps = ext env (Db (SortedSetRemoveBulk ps)) (\<lambda>d. ((), zremoveBulk ps d))"

text \<open>Modelled from the spec: object-field decrement, missing from the sources.\<close>

definition decrObjectField :: "env \<Rightarrow> key \<Rightarrow> string \<Rightarrow> unit prog" where
  "decrObjectField env k f = ext env (Db (DecrObjectField k f)) (\<lambda>d. ((), decrField k f d))"

text \<open>Modelled from the spec: object set-field, missing from the sources.\<close>

definition setObjectField :: "env \<Rightarrow> key \<Rightarrow> string \<Rightarrow> string \<Rightarrow> unit prog" where
  "setObjectField env k f v = ext env (Db (SetObjectField k f v)) (\<lambda>d. ((), putField k f v d))"

text \<open>Modelled from the spec: batch key deletion, missing from the sources.\<close>

definition deleteAll :: "env \<Rightarrow> key list \<Rightarrow> unit prog" where
  "deleteAll env ks = ext env (Db (DeleteAll ks)) (\<lambda>d. ((), dropKeys ks d))"

text \<open>Modelled from the spec: deletion of one key, missing from the sources.\<close>

definition db_delete :: "env \<Rightarrow> key \<Rightarrow> unit prog" where
  "db_delete env k = ext env (Db (Delete k)) (\<lambda>d. ((), dropKeys [k] d))"

text \<open>Modelled from the spec: set membership remove, missing from the sources.\<close>

definition setRemove :: "env \<Rightarrow> key \<Rightarrow> string \<Rightarrow> unit prog" where
  "setRemove env k v = ext env (Db (SetRemove k v)) (\<lambda>d. ((), sremove [k] v d))"

text \<open>Modelled from the spec: removal of one member from several sets, missing from the
  sources.\<close>

definition setsRemove :: "env \<Rightarrow> key list \<Rightarrow> string \<Rightarrow> unit prog" where
  "setsRemove env ks v = ext env (Db (SetsRemove ks v)) (\<lambda>d. ((), sremove ks v d))"

text \<open>A sequence of awaited statements.\<close>

fun seqs :: "unit prog list \<Rightarrow> unit prog" where
  "seqs [] = ret ()"
| "seqs (m # ms) = bnd m (\<lambda>_. seqs ms)"

section \<open>The batch cursor processor\<close>

record options =
  alwaysStartAt :: "nat option"
  batch :: "nat option"

text \<open>Modelled from the spec: the processor's built-in default batch size, missing from
  the sources.\<close>

definition DEFAULT_BATCH_SIZE :: nat where
  "DEFAULT_BATCH_SIZE = 500"

text \<open>Modelled from the spec: \<^verbatim>\<open>batch.processSortedSet\<close>, missing from the sources. It
  fetches up to a batch of member ids at the offset, hands each chunk to the handler, one
  at a time, and stops when a fetch is empty or shorter than the batch; a handler error
  aborts the scan. With \<^verbatim>\<open>alwaysStartAt\<close> every fetch is at that offset, otherwise the
  offset advances by the batch size. The handler's closure variables are the accumulator.
  The scan need not end (a handler may leave the set as it is), so it runs on fuel.\<close>

fun processSortedSet_loop ::
  "nat \<Rightarrow> env \<Rightarrow> key \<Rightarrow> (string list \<Rightarrow> 'acc \<Rightarrow> 'acc prog) \<Rightarrow> options \<Rightarrow> nat \<Rightarrow> 'acc \<Rightarrow> 'acc prog" where
  "processSortedSet_loop 0 env setKey process opts start acc = (\<lambda>s. (OutOfFuel, s))"
| "processSortedSet_loop (Suc fuel) env setKey process opts start acc =
     (let b = (case batch opts of None \<Rightarrow> DEFAULT_BATCH_SIZE | Some n \<Rightarrow> n) in
      bnd (getSortedSetRange env [setKey] start (int start + int b - 1))
        (\<lambda>ids. if ids = [] then ret acc
                else bnd (process ids acc)
                  (\<lambda>acc1. if length ids < b then ret acc1
                           else processSortedSet_loop fuel env setKey process opts
                                  (case alwaysStartAt opts of None \<Rightarrow> start + b | Some a \<Rightarrow> a) acc1)))"

text \<open>Modelled from the spec: the entry point of \<^verbatim>\<open>batch.processSortedSet\<close>, missing from
  the sources: the scan starts at offset 0, or at \<^verbatim>\<open>alwaysStartAt\<close> when that is given.\<close>

definition processSortedSet ::
  "nat \<Rightarrow> env \<Rightarrow> key \<Rightarrow> (string list \<Rightarrow> 'acc \<Rightarrow> 'acc prog) \<Rightarrow> options \<Rightarrow> 'acc \<Rightarrow> 'acc prog" where
  "processSortedSet fuel env setKey process opts acc =
     processSortedSet_loop fuel env setKey process opts
       (case alwaysStartAt opts of None \<Rightarrow> 0 | Some a \<Rightarrow> a) acc"

section \<open>Content purge: \<^verbatim>\<open>User.deleteContent\<close>\<close>

definition guardAssign :: "uid \<Rightarrow> string \<Rightarrow> unit prog" where
  "guardAssign uid v s = (Ok (), s\<lparr>deletesInProgress := guard_set (deletesInProgress s) uid v\<rparr>)"

definition guardDelete :: "uid \<Rightarrow> unit prog" where
  "guardDelete uid s = (Ok (), s\<lparr>deletesInProgress := guard_delete (deletesInProgress s) uid\<rparr>)"

text \<open>\<^verbatim>\<open>exec(command, callback)\<close> is not awaited, and its callback only logs what the
  command reported: the call is recorded and never rejects.\<close>

definition exec :: "path \<Rightarrow> unit prog" where
  "exec folder s = (Ok (), s\<lparr>calls := calls s @ [Exec folder]\<rparr>)"

definition rimraf :: "env \<Rightarrow> path \<Rightarrow> unit prog" where
  "rimraf env p = ext env (Rimraf p) (\<lambda>d. ((), d))"

definition deleteImages :: "env \<Rightarrow> uid \<Rightarrow> unit prog" where
  "deleteImages env uid =
     (let folder = [upload_path env, ''profile''] in
      bnd (exec (PathJoin folder))
        (\<lambda>_. bnd (rimraf env (PathJoin (folder @ [uid @ ''-profilecover*''])))
        (\<lambda>_. rimraf env (PathJoin (folder @ [uid @ ''-profileavatar*''])))))"

definition deletePosts :: "nat \<Rightarrow> env \<Rightarrow> uid \<Rightarrow> uid \<Rightarrow> unit prog" where
  "deletePosts fuel env callerUid uid =
     processSortedSet fuel env (''uid:'' @ uid @ '':posts'')
       (\<lambda>pids _. collab env (PostsPurge pids callerUid))
       \<lparr>alwaysStartAt = Some 0, batch = Some 500\<rparr> ()"

definition deleteTopics :: "nat \<Rightarrow> env \<Rightarrow> uid \<Rightarrow> uid \<Rightarrow> unit prog" where
  "deleteTopics fuel env callerUid uid =
     processSortedSet fuel env (''uid:'' @ uid @ '':topics'')
       (\<lambda>ids _. eachSeries ids (\<lambda>tid. collab env (TopicsPurge tid callerUid)))
       \<lparr>alwaysStartAt = Some 0, batch = None\<rparr> ()"

definition deleteUploads :: "env \<Rightarrow> uid \<Rightarrow> uid \<Rightarrow> unit prog" where
  "deleteUploads env callerUid uid =
     bnd (getSortedSetMembers env (''uid:'' @ uid @ '':uploads''))
       (\<lambda>uploads. collab env (UserDeleteUpload callerUid uid uploads))"

text \<open>\<^verbatim>\<open>data.filter(d => parseInt(d.uid, 10) === parseInt(uid, 10))\<close>: reading
  \<^verbatim>\<open>d.uid\<close> of a null object is a TypeError, here \<open>None\<close>.\<close>

fun filterQueued :: "uid \<Rightarrow> obj option list \<Rightarrow> obj list option" where
  "filterQueued uid [] = Some []"
| "filterQueued uid (None # ds) = None"
| "filterQueued uid (Some d # ds) =
     (case filterQueued uid ds of
        None \<Rightarrow> None
      | Some r \<Rightarrow> Some (if num_eq (parseInt_opt (map_of d ''uid'')) (parseInt uid) then d # r else r))"

definition queuedHandler :: "env \<Rightarrow> uid \<Rightarrow> string list \<Rightarrow> string option list \<Rightarrow> string option list prog" where
  "queuedHandler env uid ids deleteIds =
     bnd (getObjects env (map (\<lambda>i. ''post:queue:'' @ i) ids))
       (\<lambda>data. case filterQueued uid data of
                  None \<Rightarrow> throw TypeError
                | Some userQueued \<Rightarrow> ret (deleteIds @ map (\<lambda>d. map_of d ''id'') userQueued))"

definition deleteQueued :: "nat \<Rightarrow> env \<Rightarrow> uid \<Rightarrow> unit prog" where
  "deleteQueued fuel env uid =
     bnd (processSortedSet fuel env ''post:queue'' (queuedHandler env uid)
            \<lparr>alwaysStartAt = None, batch = Some 500\<rparr> [])
       (\<lambda>deleteIds. eachSeries deleteIds (\<lambda>i. collab env (PostsRemoveFromQueue i)))"

text \<open>The awaited sub-operations of \<^verbatim>\<open>User.deleteContent\<close>, in source order.\<close>

definition contentSteps :: "nat \<Rightarrow> env \<Rightarrow> uid \<Rightarrow> uid \<Rightarrow> unit prog list" where
  "contentSteps fuel env callerUid uid =
     [deleteImages env uid,
      deletePosts fuel env callerUid uid,
      deleteTopics fuel env callerUid uid,
      deleteUploads env callerUid uid,
      deleteQueued fuel env uid]"

text \<open>\<^verbatim>\<open>User.deleteContent\<close> from the assignment of the guard entry to its removal.\<close>

definition contentBody :: "nat \<Rightarrow> env \<Rightarrow> uid \<Rightarrow> uid \<Rightarrow> unit prog" where
  "contentBody fuel env callerUid uid =
     bnd (guardAssign uid ''user.delete'')
       (\<lambda>_. bnd (seqs (contentSteps fuel env callerUid uid))
       (\<lambda>_. guardDelete uid))"

definition deleteContent :: "nat \<Rightarrow> env \<Rightarrow> uid \<Rightarrow> uid \<Rightarrow> unit prog" where
  "deleteContent fuel env callerUid uid s =
     (if num_le0 (parseInt uid) then throw InvalidUid s
      else if guard_truthy (guard_get (deletesInProgress s) uid) then throw AlreadyDeleting s
      else contentBody fuel env callerUid uid s)"

section \<open>Account purge: \<^verbatim>\<open>User.deleteAccount\<close>\<close>

definition leaderboardSets :: "key list" where
  "leaderboardSets =
     [''users:joindate'', ''users:postcount'', ''users:reputation'', ''users:banned'',
      ''users:banned:expire'', ''users:flags'', ''users:online'', ''digest:day:uids'',
      ''digest:week:uids'', ''digest:biweek:uids'', ''digest:month:uids'']"

definition removeFromSortedSets :: "env \<Rightarrow> uid \<Rightarrow> unit prog" where
  "removeFromSortedSets env uid = sortedSetsRemove env leaderboardSets uid"

text \<open>\<^verbatim>\<open>Promise.all\<close> and \<^verbatim>\<open>async.each\<close> start their operations in argument order;
  the store is taken to serve requests in the order they are issued, so the operations
  are modelled one after the other.\<close>

definition deleteVotes :: "env \<Rightarrow> uid \<Rightarrow> unit prog" where
  "deleteVotes env uid =
     bnd (getSortedSetRange env [''uid:'' @ uid @ '':upvote''] 0 (- 1))
       (\<lambda>upvotedPids. bnd (getSortedSetRange env [''uid:'' @ uid @ '':downvote''] 0 (- 1))
       (\<lambda>downvotedPids.
          eachSeries (uniq (filter (\<lambda>p. p \<noteq> []) (upvotedPids @ downvotedPids)))
            (\<lambda>pid. collab env (PostsUnvote pid uid))))"

definition deleteChats :: "env \<Rightarrow> uid \<Rightarrow> unit prog" where
  "deleteChats env uid =
     bnd (getSortedSetRange env [''uid:'' @ uid @ '':chat:rooms'', ''chat:rooms:public''] 0 (- 1))
       (\<lambda>roomIds. collab env (MessagingLeaveRooms uid roomIds))"

definition deleteUserIps :: "env \<Rightarrow> uid \<Rightarrow> unit prog" where
  "deleteUserIps env uid =
     bnd (getSortedSetRange env [''uid:'' @ uid @ '':ip''] 0 (- 1))
       (\<lambda>ips. bnd (sortedSetsRemove env (map (\<lambda>ip. ''ip:'' @ ip @ '':uid'') ips) uid)
       (\<lambda>_. db_delete env (''uid:'' @ uid @ '':ip'')))"

definition async_each :: "'a list \<Rightarrow> ('a \<Rightarrow> unit prog) \<Rightarrow> unit prog" where
  "async_each xs f = eachSeries xs f"

text \<open>\<^verbatim>\<open>count = parseInt(count, 10) || 0\<close> is the cardinality itself.\<close>

definition updateCount :: "env \<Rightarrow> uid list \<Rightarrow> string \<Rightarrow> string \<Rightarrow> unit prog" where
  "updateCount env uids name fieldName =
     async_each uids
       (\<lambda>u. bnd (sortedSetCard env (name @ u))
          (\<lambda>count. setObjectField env (''user:'' @ u) fieldName (showNat count)))"

definition deleteUserFromFollowers :: "env \<Rightarrow> uid \<Rightarrow> unit prog" where
  "deleteUserFromFollowers env uid =
     bnd (getSortedSetRange env [''followers:'' @ uid] 0 (- 1))
       (\<lambda>followers. bnd (getSortedSetRange env [''following:'' @ uid] 0 (- 1))
       (\<lambda>following.
          (let followingSets = map (\<lambda>u. ''following:'' @ u) followers;
               followerSets = map (\<lambda>u. ''followers:'' @ u) following
           in bnd (sortedSetsRemove env (followerSets @ followingSets) uid)
                (\<lambda>_. bnd (updateCount env following ''followers:'' ''followerCount'')
                (\<lambda>_. updateCount env followers ''following:'' ''followingCount'')))))"

definition deleteUserFromFollowedTopics :: "env \<Rightarrow> uid \<Rightarrow> unit prog" where
  "deleteUserFromFollowedTopics env uid =
     bnd (getSortedSetRange env [''uid:'' @ uid @ '':followed_tids''] 0 (- 1))
       (\<lambda>tids. setsRemove env (map (\<lambda>tid. ''tid:'' @ tid @ '':followers'') tids) uid)"

definition deleteUserFromIgnoredTopics :: "env \<Rightarrow> uid \<Rightarrow> unit prog" where
  "deleteUserFromIgnoredTopics env uid =
     bnd (getSortedSetRange env [''uid:'' @ uid @ '':ignored_tids''] 0 (- 1))
       (\<lambda>tids. setsRemove env (map (\<lambda>tid. ''tid:'' @ tid @ '':ignorers'') tids) uid)"

definition deleteUserFromFollowedTags :: "env \<Rightarrow> uid \<Rightarrow> unit prog" where
  "deleteUserFromFollowedTags env uid =
     bnd (getSortedSetRange env [''uid:'' @ uid @ '':followed_tags''] 0 (- 1))
       (\<lambda>tags. sortedSetsRemove env (map (\<lambda>tag. ''tag:'' @ tag @ '':followers'') tags) uid)"

definition accountKeys :: "uid \<Rightarrow> key list" where
  "accountKeys uid =
     [''uid:'' @ uid @ '':notifications:read'',
      ''uid:'' @ uid @ '':notifications:unread'',
      ''uid:'' @ uid @ '':bookmarks'',
      ''uid:'' @ uid @ '':tids_read'',
      ''uid:'' @ uid @ '':tids_unread'',
      ''uid:'' @ uid @ '':blocked_uids'',
      ''user:'' @ uid @ '':settings'',
      ''user:'' @ uid @ '':usernames'',
      ''user:'' @ uid @ '':emails'',
      ''uid:'' @ uid @ '':topics'', ''uid:'' @ uid @ '':posts'',
      ''uid:'' @ uid @ '':chats'', ''uid:'' @ uid @ '':chats:unread'',
      ''uid:'' @ uid @ '':chat:rooms'',
      ''uid:'' @ uid @ '':chat:rooms:unread'',
      ''uid:'' @ uid @ '':chat:rooms:read'',
      ''uid:'' @ uid @ '':upvote'', ''uid:'' @ uid @ '':downvote'',
      ''uid:'' @ uid @ '':flag:pids'',
      ''uid:'' @ uid @ '':sessions'', ''uid:'' @ uid @ '':sessionUUID:sessionId'',
      ''invitation:uid:'' @ uid]"

text \<open>A field that has been tested to be a non-empty string.\<close>

definition strField :: "obj \<Rightarrow> string \<Rightarrow> string" where
  "strField ob f = (case map_of ob f of None \<Rightarrow> [] | Some v \<Rightarrow> v)"

text \<open>The list \<^verbatim>\<open>bulkRemove\<close> of \<^verbatim>\<open>User.deleteAccount\<close>, built once the record is
  known to have a username: the array literal, then the two conditional pushes.\<close>

definition bulkRemove :: "uid \<Rightarrow> obj \<Rightarrow> (key \<times> string option) list" where
  "bulkRemove uid userData =
     [(''username:uid'', map_of userData ''username''),
      (''username:sorted'', Some (toLowerCase (strField userData ''username'') @ '':'' @ uid)),
      (''userslug:uid'', map_of userData ''userslug''),
      (''fullname:uid'', map_of userData ''fullname'')]
     @ (if truthy (map_of userData ''email'')
        then [(''email:uid'', Some (toLowerCase (strField userData ''email''))),
              (''email:sorted'', Some (toLowerCase (strField userData ''email'') @ '':'' @ uid))]
        else [])
     @ (if truthy (map_of userData ''fullname'')
        then [(''fullname:sorted'', Some (toLowerCase (strField userData ''fullname'') @ '':'' @ uid))]
        else [])"

definition finalKeys :: "uid \<Rightarrow> key list" where
  "finalKeys uid =
     [''followers:'' @ uid, ''following:'' @ uid, ''user:'' @ uid,
      ''uid:'' @ uid @ '':followed_tags'', ''uid:'' @ uid @ '':followed_tids'',
      ''uid:'' @ uid @ '':ignored_tids'']"

text \<open>The awaited statements of \<^verbatim>\<open>User.deleteAccount\<close> between the record check and
  the release of the guard, in source order.\<close>

definition accountSteps :: "env \<Rightarrow> uid \<Rightarrow> obj \<Rightarrow> unit prog list" where
  "accountSteps env uid userData =
     [collab env (HooksFire ''static:user.delete'' uid userData),
      deleteVotes env uid,
      deleteChats env uid,
      collab env (RevokeAllSessions uid),
      sortedSetRemoveBulk env (bulkRemove uid userData),
      decrObjectField env ''global'' ''userCount'',
      deleteAll env (accountKeys uid),
      setRemove env ''invitation:uids'' uid,
      deleteUserIps env uid,
      deleteUserFromFollowers env uid,
      deleteUserFromFollowedTopics env uid,
      deleteUserFromIgnoredTopics env uid,
      deleteUserFromFollowedTags env uid,
      deleteImages env uid,
      collab env (GroupsLeaveAllGroups uid),
      collab env (FlagsResolveFlag ''user'' uid uid),
      collab env (ResetCleanByUid uid),
      collab env (EmailExpireValidation uid),
      deleteAll env (finalKeys uid)]"

text \<open>\<^verbatim>\<open>User.deleteAccount\<close> from the assignment of the guard entry on; first the
  part that follows the load of the user record.\<close>

definition accountAfterLoad :: "env \<Rightarrow> uid \<Rightarrow> obj option \<Rightarrow> obj prog" where
  "accountAfterLoad env uid userData =
     (case userData of
        None \<Rightarrow> bnd (guardDelete uid) (\<lambda>_. throw NoUser)
      | Some ud \<Rightarrow>
          if \<not> truthy (map_of ud ''username'')
          then bnd (guardDelete uid) (\<lambda>_. throw NoUser)
          else bnd (seqs (accountSteps env uid ud))
                 (\<lambda>_. bnd (guardDelete uid) (\<lambda>_. ret ud)))"

definition accountBody :: "env \<Rightarrow> uid \<Rightarrow> obj prog" where
  "accountBody env uid =
     bnd (guardAssign uid ''user.deleteAccount'')
       (\<lambda>_. bnd (removeFromSortedSets env uid)
       (\<lambda>_. bnd (getObject env (''user:'' @ uid))
       (\<lambda>userData. accountAfterLoad env uid userData)))"

definition deleteAccount :: "env \<Rightarrow> uid \<Rightarrow> obj prog" where
  "deleteAccount env uid s =
     (if guard_get (deletesInProgress s) uid = Own ''user.deleteAccount''
      then throw AlreadyDeleting s
      else accountBody env uid s)"

definition User_delete :: "nat \<Rightarrow> env \<Rightarrow> uid \<Rightarrow> uid \<Rightarrow> obj prog" where
  "User_delete fuel env callerUid uid =
     bnd (deleteContent fuel env callerUid uid) (\<lambda>_. deleteAccount env uid)"

section \<open>Traces of a run\<close>

text \<open>Predicates on the sequence of calls a run adds, used to state what a run did.\<close>

definition isExec :: "call \<Rightarrow> bool" where
  "isExec c = (case c of Exec _ \<Rightarrow> True | _ \<Rightarrow> False)"

text \<open>No awaited call of the list, issued from position \<open>n\<close> on, rejects.\<close>

fun norej :: "env \<Rightarrow> nat \<Rightarrow> call list \<Rightarrow> bool" where
  "norej env n [] = True"
| "norej env n (c # cs) = ((isExec c \<or> \<not> rejects env n c) \<and> norej env (Suc n) cs)"

text \<open>The calls \<open>new\<close> explain the outcome: a rejection is thrown by the last call, the
  first one to reject; any other outcome comes with no rejected call.\<close>

definition traced :: "env \<Rightarrow> nat \<Rightarrow> call list \<Rightarrow> 'a result \<Rightarrow> bool" where
  "traced env n new r =
     (case r of
        Throw (Rejected c) \<Rightarrow>
          new \<noteq> [] \<and> last new = c \<and> norej env n (butlast new)
          \<and> rejects env (n + length new - 1) c \<and> \<not> isExec c
      | Throw InvalidUid \<Rightarrow> False
      | Throw AlreadyDeleting \<Rightarrow> False
      | _ \<Rightarrow> norej env n new)"

definition keeps :: "'a prog \<Rightarrow> bool" where
  "keeps m = (\<forall>s. deletesInProgress (snd (m s)) = deletesInProgress s)"

definition traces :: "env \<Rightarrow> 'a prog \<Rightarrow> bool" where
  "traces env m =
     (\<forall>s. \<exists>new. calls (snd (m s)) = calls s @ new
                \<and> traced env (length (calls s)) new (fst (m s)))"

definition sound :: "env \<Rightarrow> 'a prog \<Rightarrow> bool" where
  "sound env m = (keeps m \<and> traces env m)"

text \<open>The sub-operation of \<^verbatim>\<open>User.deleteContent\<close> for uid that issues a call: 0 images,
  1 posts, 2 topics, 3 uploads, 4 queued submissions; 5 for any other call.\<close>

definition stage :: "uid \<Rightarrow> call \<Rightarrow> nat" where
  "stage uid c =
     (case c of
        Exec _ \<Rightarrow> 0
      | Rimraf _ \<Rightarrow> 0
      | PostsPurge _ _ \<Rightarrow> 1
      | TopicsPurge _ _ \<Rightarrow> 2
      | UserDeleteUpload _ _ _ \<Rightarrow> 3
      | PostsRemoveFromQueue _ \<Rightarrow> 4
      | Db q \<Rightarrow>
          (case q of
             GetSortedSetRange ks _ _ \<Rightarrow>
               if ks = [''uid:'' @ uid @ '':posts''] then 1
               else if ks = [''uid:'' @ uid @ '':topics''] then 2
               else if ks = [''post:queue''] then 4 else 5
           | GetSortedSetMembers k \<Rightarrow> if k = ''uid:'' @ uid @ '':uploads'' then 3 else 5
           | GetObjects _ \<Rightarrow> 4
           | _ \<Rightarrow> 5)
      | _ \<Rightarrow> 5)"

definition inStage :: "nat \<Rightarrow> uid \<Rightarrow> 'a prog \<Rightarrow> bool" where
  "inStage k uid m =
     (\<forall>s. \<exists>new. calls (snd (m s)) = calls s @ new \<and> list_all (\<lambda>c. stage uid c = k) new)"

definition audible :: "'a prog \<Rightarrow> bool" where
  "audible m = (\<forall>s. (case fst (m s) of Ok _ \<Rightarrow> calls (snd (m s)) \<noteq> calls s | _ \<Rightarrow> True))"

fun stagedList :: "nat \<Rightarrow> uid \<Rightarrow> unit prog list \<Rightarrow> bool" where
  "stagedList k uid [] = True"
| "stagedList k uid (m # ms) = (inStage k uid m \<and> audible m \<and> stagedList (Suc k) uid ms)"

text \<open>A program that returns normally from every state.\<close>

definition succeeds :: "'a prog \<Rightarrow> bool" where
  "succeeds m = (\<forall>s. case fst (m s) of Ok _ \<Rightarrow> True | _ \<Rightarrow> False)"

text \<open>An error of a sub-operation (a rejected call, or a TypeError) leaves the guard as
  the program found it.\<close>

definition rejectKeeps :: "'a prog \<Rightarrow> bool" where
  "rejectKeeps m =
     (\<forall>s. case fst (m s) of
            Throw (Rejected _) \<Rightarrow> deletesInProgress (snd (m s)) = deletesInProgress s
          | Throw TypeError \<Rightarrow> deletesInProgress (snd (m s)) = deletesInProgress s
          | _ \<Rightarrow> True)"






section \<open>Example runs\<close>

definition exEnv :: env where
  "exEnv = \<lparr>rejects = (\<lambda>n c. False), effect = (\<lambda>c d. d), upload_path = ''/uploads''\<rparr>"

definition emptyStore :: store where
  "emptyStore = \<lparr>zsets = (\<lambda>k. []), hashes = (\<lambda>k. None), sets = (\<lambda>k. [])\<rparr>"

definition aliceStore :: store where
  "aliceStore =
     emptyStore\<lparr>hashes := (\<lambda>k. if k = ''user:42'' then Some [(''username'', ''alice'')] else None)\<rparr>"

text \<open>A content-phase deletion of uid 42 is in flight.\<close>

definition contentPhase42 :: state where
  "contentPhase42 = \<lparr>deletesInProgress = [''42'' \<mapsto> ''user.delete''], db = aliceStore, calls = []\<rparr>"

text \<open>An account-phase deletion of uid 42 is in flight.\<close>

definition accountPhase42 :: state where
  "accountPhase42 =
     \<lparr>deletesInProgress = [''42'' \<mapsto> ''user.deleteAccount''], db = aliceStore, calls = []\<rparr>"

text \<open>No deletion in flight, an empty store.\<close>

definition emptyState :: state where
  "emptyState = \<lparr>deletesInProgress = Map.empty, db = emptyStore, calls = []\<rparr>"

text \<open>User 42 (alice) with three posts; the post collaborator's purge fails, or the
  plugin hook fails.\<close>

definition alice42 :: state where
  "alice42 =
     \<lparr>deletesInProgress = Map.empty,
      db = aliceStore\<lparr>zsets := (\<lambda>k. if k = ''uid:42:posts'' then [''p1'', ''p2'', ''p3''] else [])\<rparr>,
      calls = []\<rparr>"

definition purgeFails :: env where
  "purgeFails =
     \<lparr>rejects = (\<lambda>n c. case c of PostsPurge _ _ \<Rightarrow> True | _ \<Rightarrow> False),
      effect = (\<lambda>c d. d), upload_path = ''/uploads''\<rparr>"

definition hookFails :: env where
  "hookFails =
     \<lparr>rejects = (\<lambda>n c. case c of HooksFire _ _ _ \<Rightarrow> True | _ \<Rightarrow> False),
      effect = (\<lambda>c d. d), upload_path = ''/uploads''\<rparr>"

text \<open>The removal of the cover files fails.\<close>

definition coverFails :: env where
  "coverFails =
     \<lparr>rejects = (\<lambda>n c. c = Rimraf (PathJoin [''/uploads'', ''profile'', ''42-profilecover*''])),
      effect = (\<lambda>c d. d), upload_path = ''/uploads''\<rparr>"




section \<open>Properties\<close>

subsection \<open>Every sub-operation explains its outcome by its calls and keeps the guard\<close>

lemma norej_append: "norej env n (xs @ ys) = (norej env n xs \<and> norej env (n + length xs) ys)"
  by (induction xs arbitrary: n) auto

lemma traced_Ok: "traced env n new (Ok a) = norej env n new"
  by (simp add: traced_def)

lemma traced_append:
  assumes "norej env n xs" and "traced env (n + length xs) ys r"
  shows "traced env n (xs @ ys) r"
proof (cases r)
  case (Throw e)
  show ?thesis
  proof (cases e)
    case (Rejected c)
    with Throw assms(2) have ys: "ys \<noteq> []" "last ys = c" "norej env (n + length xs) (butlast ys)"
      "rejects env (n + length xs + length ys - 1) c" "\<not> isExec c"
      by (simp_all add: traced_def)
    from ys(1) have "butlast (xs @ ys) = xs @ butlast ys"
      by (simp add: butlast_append)
    with ys assms(1) Throw Rejected show ?thesis
      by (simp add: traced_def norej_append add.assoc)
  qed (use Throw assms in \<open>simp_all add: traced_def norej_append\<close>)
qed (use assms in \<open>simp_all add: traced_def norej_append\<close>)

lemma traced_coerce:
  "traced env n new (Throw e :: 'a result) \<Longrightarrow> traced env n new (Throw e :: 'b result)"
  by (simp add: traced_def)

lemma traced_coerce_fuel:
  "traced env n new (OutOfFuel :: 'a result) \<Longrightarrow> traced env n new (OutOfFuel :: 'b result)"
  by (simp add: traced_def)

lemma keeps_bnd:
  assumes "keeps m" and "\<And>a. keeps (f a)"
  shows "keeps (bnd m f)"
  unfolding keeps_def
proof
  fix s
  obtain r s1 where ms: "m s = (r, s1)" by (cases "m s")
  with assms(1) have g1: "deletesInProgress s1 = deletesInProgress s"
    unfolding keeps_def by (metis snd_conv)
  show "deletesInProgress (snd (bnd m f s)) = deletesInProgress s"
  proof (cases r)
    case (Ok a)
    with assms(2)[of a] have "deletesInProgress (snd (f a s1)) = deletesInProgress s1"
      by (simp add: keeps_def)
    with ms Ok g1 show ?thesis by (simp add: bnd_def)
  qed (use ms g1 in \<open>simp_all add: bnd_def\<close>)
qed

lemma traces_bnd:
  assumes m: "traces env m" and f: "\<And>a. traces env (f a)"
  shows "traces env (bnd m f)"
  unfolding traces_def
proof
  fix s
  obtain r s1 where ms: "m s = (r, s1)" by (cases "m s")
  from m ms obtain new1 where
    c1: "calls s1 = calls s @ new1" and t1: "traced env (length (calls s)) new1 r"
    unfolding traces_def by (metis fst_conv snd_conv)
  show "\<exists>new. calls (snd (bnd m f s)) = calls s @ new \<and>
           traced env (length (calls s)) new (fst (bnd m f s))"
  proof (cases r)
    case (Ok a)
    obtain r2 s2 where fs: "f a s1 = (r2, s2)" by (cases "f a s1")
    from f[of a] fs obtain new2 where
      c2: "calls s2 = calls s1 @ new2" and t2: "traced env (length (calls s1)) new2 r2"
      unfolding traces_def by (metis fst_conv snd_conv)
    from t1 Ok have "norej env (length (calls s)) new1" by (simp add: traced_Ok)
    with t2 c1 have "traced env (length (calls s)) (new1 @ new2) r2"
      by (simp add: traced_append)
    with ms Ok fs c1 c2 show ?thesis
      by (auto simp: bnd_def)
  next
    case (Throw e)
    with ms c1 t1 show ?thesis
      by (auto simp: bnd_def intro: traced_coerce)
  next
    case OutOfFuel
    with ms c1 t1 show ?thesis
      by (auto simp: bnd_def intro: traced_coerce_fuel)
  qed
qed

lemma sound_bnd: "sound env m \<Longrightarrow> (\<And>a. sound env (f a)) \<Longrightarrow> sound env (bnd m f)"
  by (simp add: sound_def keeps_bnd traces_bnd)

lemma sound_ret: "sound env (ret a)"
  by (simp add: sound_def keeps_def traces_def ret_def traced_def)

lemma sound_throw_TypeError: "sound env (throw TypeError)"
  by (simp add: sound_def keeps_def traces_def throw_def traced_def)

lemma sound_ext: "\<not> isExec c \<Longrightarrow> sound env (ext env c sem)"
  by (auto simp: sound_def keeps_def traces_def ext_def traced_def split: prod.splits)

lemma sound_exec: "sound env (exec p)"
  by (simp add: sound_def keeps_def traces_def exec_def traced_def isExec_def)

lemma sound_collab: "\<not> isExec c \<Longrightarrow> sound env (collab env c)"
  by (simp add: collab_def sound_ext)

lemma sound_eachSeries: "(\<And>x. sound env (f x)) \<Longrightarrow> sound env (eachSeries xs f)"
  by (induction xs) (auto intro: sound_bnd sound_ret)

lemma sound_seqs: "(\<And>m. m \<in> set ms \<Longrightarrow> sound env m) \<Longrightarrow> sound env (seqs ms)"
  by (induction ms) (auto intro: sound_bnd sound_ret)

lemma sound_fuel: "sound env (\<lambda>s. (OutOfFuel, s))"
  by (simp add: sound_def keeps_def traces_def traced_def)

lemmas db_defs = getSortedSetRange_def getSortedSetMembers_def getObject_def getObjects_def
  sortedSetCard_def sortedSetsRemove_def sortedSetRemoveBulk_def decrObjectField_def
  setObjectField_def deleteAll_def db_delete_def setRemove_def setsRemove_def rimraf_def

lemma sound_db:
  "sound env (getSortedSetRange env ks a b)"
  "sound env (getSortedSetMembers env k)"
  "sound env (getObject env k)"
  "sound env (getObjects env ks)"
  "sound env (sortedSetCard env k)"
  "sound env (sortedSetsRemove env ks v)"
  "sound env (sortedSetRemoveBulk env ps)"
  "sound env (decrObjectField env k f)"
  "sound env (setObjectField env k f v)"
  "sound env (deleteAll env ks)"
  "sound env (db_delete env k)"
  "sound env (setRemove env k v)"
  "sound env (setsRemove env ks v)"
  "sound env (rimraf env p)"
  by (simp_all add: db_defs sound_ext isExec_def)

lemma sound_loop:
  "(\<And>ids acc. sound env (process ids acc)) \<Longrightarrow>
   sound env (processSortedSet_loop fuel env setKey process opts start acc)"
proof (induction fuel arbitrary: start acc)
  case 0
  show ?case by (simp add: sound_fuel)
next
  case (Suc fuel)
  show ?case
    by (auto simp: Let_def intro!: sound_bnd sound_db sound_ret Suc)
qed

lemma sound_processSortedSet:
  "(\<And>ids acc. sound env (process ids acc)) \<Longrightarrow>
   sound env (processSortedSet fuel env setKey process opts acc)"
  by (simp add: processSortedSet_def sound_loop)

lemma sound_deleteImages: "sound env (deleteImages env uid)"
  by (auto simp: deleteImages_def Let_def intro!: sound_bnd sound_db sound_exec)

lemma sound_deletePosts: "sound env (deletePosts fuel env callerUid uid)"
  by (auto simp: deletePosts_def isExec_def intro!: sound_processSortedSet sound_collab)

lemma sound_deleteTopics: "sound env (deleteTopics fuel env callerUid uid)"
  by (auto simp: deleteTopics_def isExec_def intro!: sound_processSortedSet sound_eachSeries sound_collab)

lemma sound_deleteUploads: "sound env (deleteUploads env callerUid uid)"
  by (auto simp: deleteUploads_def isExec_def intro!: sound_bnd sound_db sound_collab)

lemma sound_queuedHandler: "sound env (queuedHandler env uid ids acc)"
  by (auto simp: queuedHandler_def intro!: sound_bnd sound_db sound_ret sound_throw_TypeError split: option.splits)

lemma sound_deleteQueued: "sound env (deleteQueued fuel env uid)"
  by (auto simp: deleteQueued_def isExec_def
      intro!: sound_bnd sound_processSortedSet sound_queuedHandler sound_eachSeries sound_collab)

lemma sound_deleteVotes: "sound env (deleteVotes env uid)"
  by (auto simp: deleteVotes_def isExec_def intro!: sound_bnd sound_db sound_eachSeries sound_collab)

lemma sound_deleteChats: "sound env (deleteChats env uid)"
  by (auto simp: deleteChats_def isExec_def intro!: sound_bnd sound_db sound_collab)

lemma sound_deleteUserIps: "sound env (deleteUserIps env uid)"
  by (auto simp: deleteUserIps_def intro!: sound_bnd sound_db)

lemma sound_updateCount: "sound env (updateCount env uids name fieldName)"
  by (auto simp: updateCount_def async_each_def intro!: sound_eachSeries sound_bnd sound_db)

lemma sound_deleteUserFromFollowers: "sound env (deleteUserFromFollowers env uid)"
  by (auto simp: deleteUserFromFollowers_def Let_def intro!: sound_bnd sound_db sound_updateCount)

lemma sound_followed:
  "sound env (deleteUserFromFollowedTopics env uid)"
  "sound env (deleteUserFromIgnoredTopics env uid)"
  "sound env (deleteUserFromFollowedTags env uid)"
  by (auto simp: deleteUserFromFollowedTopics_def deleteUserFromIgnoredTopics_def
      deleteUserFromFollowedTags_def intro!: sound_bnd sound_db)

lemma sound_contentSteps: "sound env (seqs (contentSteps fuel env callerUid uid))"
  by (rule sound_seqs) (auto simp: contentSteps_def intro: sound_deleteImages sound_deletePosts
      sound_deleteTopics sound_deleteUploads sound_deleteQueued)

lemma sound_accountSteps: "sound env (seqs (accountSteps env uid ud))"
  by (rule sound_seqs) (auto simp: accountSteps_def isExec_def intro: sound_collab sound_db
      sound_deleteVotes sound_deleteChats sound_deleteUserIps sound_deleteUserFromFollowers
      sound_followed sound_deleteImages)

subsection \<open>The two phases\<close>

lemma sound_traces: "sound env m \<Longrightarrow> traces env m"
  by (simp add: sound_def)

lemma sound_keeps: "sound env m \<Longrightarrow> keeps m"
  by (simp add: sound_def)

lemma traces_guardAssign: "traces env (guardAssign uid v)"
  by (simp add: traces_def guardAssign_def traced_def)

lemma traces_guardDelete: "traces env (guardDelete uid)"
  by (simp add: traces_def guardDelete_def traced_def)

lemma traces_throw_NoUser: "traces env (throw NoUser)"
  by (simp add: traces_def throw_def traced_def)

lemma traces_ret: "traces env (ret a)"
  by (simp add: traces_def ret_def traced_def)

lemma sound_removeFromSortedSets: "sound env (removeFromSortedSets env uid)"
  by (simp add: removeFromSortedSets_def sound_db)

lemma traces_accountAfterLoad: "traces env (accountAfterLoad env uid userData)"
proof -
  have t1: "traces env (bnd (guardDelete uid) (\<lambda>_. throw NoUser :: obj prog))"
    by (intro traces_bnd traces_guardDelete traces_throw_NoUser)
  have t2: "traces env (bnd (seqs (accountSteps env uid ud))
                         (\<lambda>_. bnd (guardDelete uid) (\<lambda>_. ret ud)))" for ud
    by (intro traces_bnd traces_guardDelete traces_ret sound_traces[OF sound_accountSteps])
  show ?thesis
    using t1 t2 by (simp add: accountAfterLoad_def split: option.split)
qed

lemma traces_accountBody: "traces env (accountBody env uid)"
  unfolding accountBody_def
  by (intro traces_bnd traces_guardAssign sound_traces[OF sound_removeFromSortedSets]
      sound_traces[OF sound_db(3)] traces_accountAfterLoad)

lemma deleteAccount_unfold:
  "deleteAccount env uid s =
     (if guard_get (deletesInProgress s) uid = Own ''user.deleteAccount''
      then (Throw AlreadyDeleting, s) else accountBody env uid s)"
  by (simp add: deleteAccount_def throw_def)

lemma deleteAccount_traced:
  assumes "guard_get (deletesInProgress s) uid \<noteq> Own ''user.deleteAccount''"
  shows "\<exists>new. calls (snd (deleteAccount env uid s)) = calls s @ new
           \<and> traced env (length (calls s)) new (fst (deleteAccount env uid s))"
  using traces_accountBody[of env uid] assms
  by (simp add: deleteAccount_unfold traces_def)

lemma traces_contentBody: "traces env (contentBody fuel env callerUid uid)"
  unfolding contentBody_def
  by (intro traces_bnd traces_guardAssign traces_guardDelete sound_traces sound_contentSteps)

lemma deleteContent_unfold:
  "deleteContent fuel env callerUid uid s =
     (if num_le0 (parseInt uid) then (Throw InvalidUid, s)
      else if guard_truthy (guard_get (deletesInProgress s) uid) then (Throw AlreadyDeleting, s)
      else contentBody fuel env callerUid uid s)"
  by (simp add: deleteContent_def throw_def)

lemma traced_not_AlreadyDeleting: "traced env n new r \<Longrightarrow> r \<noteq> Throw AlreadyDeleting"
  by (auto simp: traced_def)

lemma traced_not_InvalidUid: "traced env n new r \<Longrightarrow> r \<noteq> Throw InvalidUid"
  by (auto simp: traced_def)

lemma fold_removeAll_apply:
  "fold (\<lambda>k z. z(k := removeAll v (z k))) ks z0 k'
     = (if k' \<in> set ks then removeAll v (z0 k') else z0 k')"
  by (induction ks arbitrary: z0) auto

lemma fold_const_apply:
  "fold (\<lambda>k z. z(k := c)) ks z0 k' = (if k' \<in> set ks then c else z0 k')"
  by (induction ks arbitrary: z0) auto

lemma zsets_zremove:
  "zsets (zremove ks v d) k = (if k \<in> set ks then removeAll v (zsets d k) else zsets d k)"
  by (simp add: zremove_def fold_removeAll_apply)

lemma hashes_zremove: "hashes (zremove ks v d) = hashes d"
  by (simp add: zremove_def)

lemma succeeds_Ok: "succeeds m \<Longrightarrow> \<exists>a. fst (m s) = Ok a"
  unfolding succeeds_def by (cases "fst (m s)") (auto dest: spec[of _ s])

lemma succeeds_ret: "succeeds (ret a)"
  by (simp add: succeeds_def ret_def)

lemma succeeds_ext: "\<forall>n c. \<not> rejects env n c \<Longrightarrow> succeeds (ext env c sem)"
  by (simp add: succeeds_def ext_def split: prod.split)

lemma succeeds_exec: "succeeds (exec p)"
  by (simp add: succeeds_def exec_def)

lemma succeeds_bnd:
  assumes "succeeds m" and "\<And>a. succeeds (f a)"
  shows "succeeds (bnd m f)"
  unfolding succeeds_def
proof
  fix s
  obtain r s1 where ms: "m s = (r, s1)" by (cases "m s")
  with succeeds_Ok[OF assms(1), of s] obtain a where r: "r = Ok a" by auto
  from succeeds_Ok[OF assms(2), of a s1] obtain b where "fst (f a s1) = Ok b" ..
  with ms r show "case fst (bnd m f s) of Ok _ \<Rightarrow> True | _ \<Rightarrow> False"
    by (simp add: bnd_def)
qed

lemma succeeds_eachSeries: "(\<And>x. succeeds (f x)) \<Longrightarrow> succeeds (eachSeries xs f)"
  by (induction xs) (auto intro: succeeds_bnd succeeds_ret)

lemma succeeds_seqs: "(\<And>m. m \<in> set ms \<Longrightarrow> succeeds m) \<Longrightarrow> succeeds (seqs ms)"
  by (induction ms) (auto intro: succeeds_bnd succeeds_ret)

lemma succeeds_accountSteps:
  assumes q: "\<forall>n c. \<not> rejects env n c"
  shows "succeeds (seqs (accountSteps env uid ud))"
proof (rule succeeds_seqs)
  fix m assume "m \<in> set (accountSteps env uid ud)"
  then show "succeeds m"
    unfolding accountSteps_def
    by (auto simp: collab_def db_defs deleteVotes_def deleteChats_def deleteUserIps_def
        deleteUserFromFollowers_def updateCount_def async_each_def Let_def
        deleteUserFromFollowedTopics_def deleteUserFromIgnoredTopics_def
        deleteUserFromFollowedTags_def deleteImages_def
        intro!: succeeds_bnd succeeds_ext[OF q] succeeds_eachSeries succeeds_exec)
qed

lemma keeps_apply: "keeps m \<Longrightarrow> deletesInProgress (snd (m s)) = deletesInProgress s"
  by (simp add: keeps_def)

lemma ext_accept:
  "\<not> rejects env (length (calls s)) c \<Longrightarrow>
   ext env c sem s = (Ok (fst (sem (db s))), s\<lparr>db := snd (sem (db s)), calls := calls s @ [c]\<rparr>)"
  by (simp add: ext_def split: prod.split)

lemma ext_reject:
  "rejects env (length (calls s)) c \<Longrightarrow>
   ext env c sem s = (Throw (Rejected c), s\<lparr>calls := calls s @ [c]\<rparr>)"
  by (simp add: ext_def)

text \<open>The state in which \<^verbatim>\<open>User.deleteAccount\<close> looks at the loaded record.\<close>

lemma accountBody_loaded:
  assumes "\<not> rejects env (length (calls s)) (Db (SortedSetsRemove leaderboardSets uid))"
    and "\<not> rejects env (Suc (length (calls s))) (Db (GetObject (''user:'' @ uid)))"
  shows "accountBody env uid s =
           accountAfterLoad env uid (hashes (db s) (''user:'' @ uid))
             (s\<lparr>deletesInProgress := guard_set (deletesInProgress s) uid ''user.deleteAccount'',
                db := zremove leaderboardSets uid (db s),
                calls := calls s @ [Db (SortedSetsRemove leaderboardSets uid),
                                    Db (GetObject (''user:'' @ uid))]\<rparr>)"
  using assms
  by (simp add: accountBody_def bnd_def guardAssign_def removeFromSortedSets_def
      sortedSetsRemove_def getObject_def ext_accept hashes_zremove)

lemma deleteAccount_succeeds:
  assumes q: "\<forall>n c. \<not> rejects env n c"
    and g: "guard_get (deletesInProgress s) uid \<noteq> Own ''user.deleteAccount''"
    and r: "hashes (db s) (''user:'' @ uid) = Some ud" "truthy (map_of ud ''username'')"
  shows "fst (deleteAccount env uid s) = Ok ud"
    and "deletesInProgress (snd (deleteAccount env uid s))
           = guard_delete (guard_set (deletesInProgress s) uid ''user.deleteAccount'') uid"
proof -
  define s2 where "s2 = s\<lparr>deletesInProgress := guard_set (deletesInProgress s) uid ''user.deleteAccount'',
                db := zremove leaderboardSets uid (db s),
                calls := calls s @ [Db (SortedSetsRemove leaderboardSets uid),
                                    Db (GetObject (''user:'' @ uid))]\<rparr>"
  obtain r3 s3 where run: "seqs (accountSteps env uid ud) s2 = (r3, s3)"
    by (cases "seqs (accountSteps env uid ud) s2")
  from succeeds_Ok[OF succeeds_accountSteps[OF q], of uid ud s2] run have r3: "r3 = Ok ()"
    by auto
  from keeps_apply[OF sound_keeps[OF sound_accountSteps], of env uid ud s2] run
  have g3: "deletesInProgress s3 = deletesInProgress s2" by simp
  have "deleteAccount env uid s = accountAfterLoad env uid (Some ud) s2"
    using q g r(1) by (simp add: deleteAccount_unfold accountBody_loaded s2_def)
  also have "\<dots> = (Ok ud, s3\<lparr>deletesInProgress := guard_delete (deletesInProgress s3) uid\<rparr>)"
    using r(2) run r3 by (simp add: accountAfterLoad_def bnd_def guardDelete_def ret_def)
  finally have eq: "deleteAccount env uid s
      = (Ok ud, s3\<lparr>deletesInProgress := guard_delete (deletesInProgress s3) uid\<rparr>)" .
  show "fst (deleteAccount env uid s) = Ok ud" by (simp add: eq)
  show "deletesInProgress (snd (deleteAccount env uid s))
           = guard_delete (guard_set (deletesInProgress s) uid ''user.deleteAccount'') uid"
    by (simp add: eq g3 s2_def)
qed

subsection \<open>Guard contention\<close>

lemma guard_contentPhase42:
  "guard_get (deletesInProgress contentPhase42) ''42'' = Own ''user.delete''"
  by (simp add: contentPhase42_def guard_get_def)

lemma guard_accountPhase42:
  "guard_get (deletesInProgress accountPhase42) ''42'' = Own ''user.deleteAccount''"
  by (simp add: accountPhase42_def guard_get_def)

lemma parseInt_42: "parseInt ''42'' = Some 42"
  by code_simp

text \<open>
  C1, as the code has it: \<^verbatim>\<open>User.deleteAccount\<close> fails with the already-deleting error
  exactly when the guard entry of the uid is the account-phase marker, so an entry with
  the content-phase marker does not block it; \<^verbatim>\<open>User.deleteContent\<close>, for a uid that
  passes its validation, fails with that error exactly when the uid has any truthy guard
  entry, whichever phase set it, and then leaves the state as it was.
\<close>

theorem AlreadyDeleting_conditions:
  "(fst (deleteAccount env uid s) = Throw AlreadyDeleting)
     = (guard_get (deletesInProgress s) uid = Own ''user.deleteAccount'')
   \<and> (fst (deleteContent fuel env callerUid uid s) = Throw AlreadyDeleting)
     = (\<not> num_le0 (parseInt uid) \<and> guard_truthy (guard_get (deletesInProgress s) uid))
   \<and> (fst (deleteContent fuel env callerUid uid s) = Throw AlreadyDeleting
        \<longrightarrow> snd (deleteContent fuel env callerUid uid s) = s)"
proof -
  have a: "fst (accountBody env uid s) \<noteq> Throw AlreadyDeleting"
    using traces_accountBody[of env uid] traced_not_AlreadyDeleting
    unfolding traces_def by blast
  have c: "fst (contentBody fuel env callerUid uid s) \<noteq> Throw AlreadyDeleting"
    using traces_contentBody[of env fuel callerUid uid] traced_not_AlreadyDeleting
    unfolding traces_def by blast
  show ?thesis
    using a c by (simp add: deleteAccount_unfold deleteContent_unfold)
qed

theorem AlreadyDeleting_conditions_witness:
  "fst (deleteAccount exEnv ''42'' accountPhase42) = Throw AlreadyDeleting
   \<and> fst (deleteAccount exEnv ''42'' contentPhase42) \<noteq> Throw AlreadyDeleting
   \<and> deleteContent 1 exEnv ''1'' ''42'' contentPhase42 = (Throw AlreadyDeleting, contentPhase42)
   \<and> deleteContent 1 exEnv ''1'' ''42'' accountPhase42 = (Throw AlreadyDeleting, accountPhase42)"
  using AlreadyDeleting_conditions[of exEnv "''42''" accountPhase42 1 "''1''"]
        AlreadyDeleting_conditions[of exEnv "''42''" contentPhase42 1 "''1''"]
  by (simp add: guard_contentPhase42 guard_accountPhase42 parseInt_42 num_le0_def
      guard_truthy_def prod_eq_iff)

text \<open>
  C1 fails as stated: with the content-phase marker in place for uid 42,
  \<^verbatim>\<open>User.deleteAccount(42)\<close> does not fail; it deletes the account and returns the
  user record.
\<close>

theorem deleteAccount_passes_content_marker:
  "guard_get (deletesInProgress contentPhase42) ''42'' = Own ''user.delete''
   \<and> fst (deleteAccount exEnv ''42'' contentPhase42) = Ok [(''username'', ''alice'')]"
proof -
  have "\<forall>n c. \<not> rejects exEnv n c"
    by (simp add: exEnv_def)
  moreover have "hashes (db contentPhase42) (''user:'' @ ''42'') = Some [(''username'', ''alice'')]"
    by (simp add: contentPhase42_def aliceStore_def)
  moreover have "truthy (map_of [(''username'', ''alice'')] ''username'')"
    by (simp add: truthy_def)
  ultimately have "fst (deleteAccount exEnv ''42'' contentPhase42) = Ok [(''username'', ''alice'')]"
    by (intro deleteAccount_succeeds(1)) (simp_all add: guard_contentPhase42)
  then show ?thesis
    by (simp add: guard_contentPhase42)
qed

subsection \<open>The guard after an error\<close>

lemma rejectKeeps_result:
  "rejectKeeps m \<Longrightarrow> fst (m s) = Throw e \<Longrightarrow> (\<exists>c. e = Rejected c) \<or> e = TypeError \<Longrightarrow>
   deletesInProgress (snd (m s)) = deletesInProgress s"
  unfolding rejectKeeps_def by (auto dest: spec[of _ s])

lemma keeps_rejectKeeps: "keeps m \<Longrightarrow> rejectKeeps m"
  by (auto simp: keeps_def rejectKeeps_def split: result.split error.split)

lemma rejectKeeps_bnd:
  assumes "keeps m" and "\<And>a. rejectKeeps (f a)"
  shows "rejectKeeps (bnd m f)"
  unfolding rejectKeeps_def
proof
  fix s
  obtain r s1 where ms: "m s = (r, s1)" by (cases "m s")
  with keeps_apply[OF assms(1), of s] have g1: "deletesInProgress s1 = deletesInProgress s"
    by simp
  show "case fst (bnd m f s) of
          Throw (Rejected _) \<Rightarrow> deletesInProgress (snd (bnd m f s)) = deletesInProgress s
        | Throw TypeError \<Rightarrow> deletesInProgress (snd (bnd m f s)) = deletesInProgress s
        | _ \<Rightarrow> True"
  proof (cases r)
    case (Ok a)
    with assms(2)[of a] ms g1 show ?thesis
      by (auto simp: bnd_def rejectKeeps_def split: result.split error.split dest: spec[of _ s1])
  next
    case (Throw e)
    with ms g1 show ?thesis by (simp add: bnd_def split: error.split)
  next
    case OutOfFuel
    with ms show ?thesis by (simp add: bnd_def)
  qed
qed

lemma rejectKeeps_release: "rejectKeeps (bnd (guardDelete uid) (\<lambda>_. throw NoUser))"
  by (simp add: rejectKeeps_def bnd_def guardDelete_def throw_def)

lemma rejectKeeps_return: "rejectKeeps (bnd (guardDelete uid) (\<lambda>_. ret a))"
  by (simp add: rejectKeeps_def bnd_def guardDelete_def ret_def)

lemma rejectKeeps_guardDelete: "rejectKeeps (guardDelete uid)"
  by (simp add: rejectKeeps_def guardDelete_def)

lemma rejectKeeps_accountAfterLoad: "rejectKeeps (accountAfterLoad env uid userData)"
  by (auto simp: accountAfterLoad_def split: option.split
      intro!: rejectKeeps_release rejectKeeps_bnd rejectKeeps_return
        sound_keeps[OF sound_accountSteps])

lemma contentBody_rejected:
  assumes "fst (contentBody fuel env callerUid uid s) = Throw e"
    and "(\<exists>c. e = Rejected c) \<or> e = TypeError"
  shows "deletesInProgress (snd (contentBody fuel env callerUid uid s))
           = guard_set (deletesInProgress s) uid ''user.delete''"
proof -
  let ?s1 = "s\<lparr>deletesInProgress := guard_set (deletesInProgress s) uid ''user.delete''\<rparr>"
  let ?k = "bnd (seqs (contentSteps fuel env callerUid uid)) (\<lambda>_. guardDelete uid)"
  have eq: "contentBody fuel env callerUid uid s = ?k ?s1"
    by (simp add: contentBody_def bnd_def guardAssign_def)
  have "rejectKeeps ?k"
    by (intro rejectKeeps_bnd sound_keeps[OF sound_contentSteps] rejectKeeps_guardDelete)
  from rejectKeeps_result[OF this, of ?s1 e] assms show ?thesis
    by (simp add: eq)
qed

lemma accountBody_rejected:
  assumes "fst (accountBody env uid s) = Throw e"
    and "(\<exists>c. e = Rejected c) \<or> e = TypeError"
  shows "deletesInProgress (snd (accountBody env uid s))
           = guard_set (deletesInProgress s) uid ''user.deleteAccount''"
proof -
  let ?s1 = "s\<lparr>deletesInProgress := guard_set (deletesInProgress s) uid ''user.deleteAccount''\<rparr>"
  let ?k = "bnd (removeFromSortedSets env uid)
              (\<lambda>_. bnd (getObject env (''user:'' @ uid))
              (\<lambda>userData. accountAfterLoad env uid userData))"
  have eq: "accountBody env uid s = ?k ?s1"
    by (simp add: accountBody_def bnd_def guardAssign_def)
  have "rejectKeeps ?k"
    by (intro rejectKeeps_bnd sound_keeps[OF sound_removeFromSortedSets]
        sound_keeps[OF sound_db(3)] rejectKeeps_accountAfterLoad)
  from rejectKeeps_result[OF this, of ?s1 e] assms show ?thesis
    by (simp add: eq)
qed

text \<open>
  C2 against the code: neither phase has an exception handler around its sub-operations.
  When a sub-operation of \<^verbatim>\<open>User.deleteContent\<close> or \<^verbatim>\<open>User.deleteAccount\<close> throws (an
  awaited call rejects, or a TypeError is raised), the error propagates with the guard
  entry still as the phase assigned it (the content-phase or the account-phase marker):
  the entry is not removed.
\<close>

theorem guard_left_after_rejection:
  "(fst (deleteContent fuel env callerUid uid s) = Throw e
      \<and> ((\<exists>c. e = Rejected c) \<or> e = TypeError) \<longrightarrow>
      deletesInProgress (snd (deleteContent fuel env callerUid uid s))
        = guard_set (deletesInProgress s) uid ''user.delete'')
   \<and> (fst (deleteAccount env uid s) = Throw e'
      \<and> ((\<exists>c. e' = Rejected c) \<or> e' = TypeError) \<longrightarrow>
      deletesInProgress (snd (deleteAccount env uid s))
        = guard_set (deletesInProgress s) uid ''user.deleteAccount'')"
  using contentBody_rejected[of fuel env callerUid uid s e] accountBody_rejected[of env uid s e']
  by (auto simp: deleteContent_unfold deleteAccount_unfold)

lemmas content_run_defs = bnd_def ext_def collab_def ret_def throw_def guardAssign_def
  guardDelete_def exec_def db_defs deleteImages_def deletePosts_def deleteTopics_def
  deleteUploads_def deleteQueued_def queuedHandler_def processSortedSet_def contentSteps_def
  contentBody_def deleteContent_def zrange_def zunion_def DEFAULT_BATCH_SIZE_def Let_def
  num_le0_def guard_get_def guard_truthy_def guard_set_def Object_prototype_props_def

lemma purgeFails_run:
  "fst (deleteContent (Suc 0) purgeFails ''1'' ''42'' alice42)
     = Throw (Rejected (PostsPurge [''p1'', ''p2'', ''p3''] ''1''))"
  by (simp add: content_run_defs parseInt_42 alice42_def aliceStore_def emptyStore_def
      purgeFails_def cong: prod.case_cong_weak)

lemma hookFails_run:
  "fst (deleteAccount hookFails ''42'' alice42)
     = Throw (Rejected (HooksFire ''static:user.delete'' ''42'' [(''username'', ''alice'')]))"
proof -
  have "deleteAccount hookFails ''42'' alice42 =
          accountAfterLoad hookFails ''42'' (hashes (db alice42) (''user:'' @ ''42''))
             (alice42\<lparr>deletesInProgress := guard_set (deletesInProgress alice42) ''42'' ''user.deleteAccount'',
                db := zremove leaderboardSets ''42'' (db alice42),
                calls := calls alice42 @ [Db (SortedSetsRemove leaderboardSets ''42''),
                                    Db (GetObject (''user:'' @ ''42''))]\<rparr>)"
    by (subst deleteAccount_unfold, subst accountBody_loaded)
       (simp_all add: hookFails_def alice42_def guard_get_def Object_prototype_props_def)
  then show ?thesis
    by (simp add: accountAfterLoad_def alice42_def aliceStore_def emptyStore_def truthy_def
        accountSteps_def bnd_def collab_def ext_def hookFails_def)
qed

lemma deleteContent_blocked:
  "\<not> num_le0 (parseInt uid) \<Longrightarrow> guard_truthy (guard_get (deletesInProgress s) uid) \<Longrightarrow>
   fst (deleteContent fuel env callerUid uid s) = Throw AlreadyDeleting"
  by (simp add: deleteContent_unfold)

lemma deleteAccount_blocked:
  "guard_get (deletesInProgress s) uid = Own ''user.deleteAccount'' \<Longrightarrow>
   fst (deleteAccount env uid s) = Throw AlreadyDeleting"
  by (simp add: deleteAccount_unfold)

text \<open>
  The failing input of C2: uid 42 has three posts and the post collaborator's purge
  rejects; the guard entry is left in place and a retry is refused. The same with a
  failing plugin hook in the account phase.
\<close>

theorem guard_left_after_rejection_witness:
  "fst (deleteContent (Suc 0) purgeFails ''1'' ''42'' alice42)
     = Throw (Rejected (PostsPurge [''p1'', ''p2'', ''p3''] ''1''))
   \<and> deletesInProgress (snd (deleteContent (Suc 0) purgeFails ''1'' ''42'' alice42)) ''42''
     = Some ''user.delete''
   \<and> fst (deleteContent (Suc 0) exEnv ''1'' ''42''
            (snd (deleteContent (Suc 0) purgeFails ''1'' ''42'' alice42)))
     = Throw AlreadyDeleting
   \<and> fst (deleteAccount hookFails ''42'' alice42)
     = Throw (Rejected (HooksFire ''static:user.delete'' ''42'' [(''username'', ''alice'')]))
   \<and> deletesInProgress (snd (deleteAccount hookFails ''42'' alice42)) ''42''
     = Some ''user.deleteAccount''
   \<and> fst (deleteAccount exEnv ''42'' (snd (deleteAccount hookFails ''42'' alice42)))
     = Throw AlreadyDeleting"
proof -
  let ?c = "Rejected (PostsPurge [''p1'', ''p2'', ''p3''] ''1'')"
  let ?h = "Rejected (HooksFire ''static:user.delete'' ''42'' [(''username'', ''alice'')])"
  have g1: "deletesInProgress (snd (deleteContent (Suc 0) purgeFails ''1'' ''42'' alice42))
              = guard_set (deletesInProgress alice42) ''42'' ''user.delete''"
    using guard_left_after_rejection[of "Suc 0" purgeFails "''1''" "''42''" alice42 ?c ?h]
      purgeFails_run by blast
  have g2: "deletesInProgress (snd (deleteAccount hookFails ''42'' alice42))
              = guard_set (deletesInProgress alice42) ''42'' ''user.deleteAccount''"
    using guard_left_after_rejection[of "Suc 0" hookFails "''1''" "''42''" alice42 ?c ?h]
      hookFails_run by blast
  have e1: "deletesInProgress (snd (deleteContent (Suc 0) purgeFails ''1'' ''42'' alice42)) ''42''
              = Some ''user.delete''"
    by (simp add: g1 guard_set_def)
  have e2: "deletesInProgress (snd (deleteAccount hookFails ''42'' alice42)) ''42''
              = Some ''user.deleteAccount''"
    by (simp add: g2 guard_set_def)
  have b1: "fst (deleteContent (Suc 0) exEnv ''1'' ''42''
              (snd (deleteContent (Suc 0) purgeFails ''1'' ''42'' alice42))) = Throw AlreadyDeleting"
    by (rule deleteContent_blocked) (simp_all add: parseInt_42 num_le0_def guard_get_def e1 guard_truthy_def)
  have b2: "fst (deleteAccount exEnv ''42'' (snd (deleteAccount hookFails ''42'' alice42)))
              = Throw AlreadyDeleting"
    by (rule deleteAccount_blocked) (simp add: guard_get_def e2)
  from purgeFails_run e1 b1 hookFails_run e2 b2 show ?thesis
    by blast
qed

subsection \<open>Validation of the uid\<close>

lemma traces_extends: "traces env m \<Longrightarrow> \<exists>new. calls (snd (m s)) = calls s @ new"
  unfolding traces_def by blast

lemma starts_bnd:
  assumes "\<And>s. \<exists>rest. calls (snd (m s)) = calls s @ c # rest"
    and "\<And>a. traces env (f a)"
  shows "\<exists>rest. calls (snd (bnd m f s)) = calls s @ c # rest"
proof -
  obtain r s1 where ms: "m s = (r, s1)" by (cases "m s")
  with assms(1)[of s] obtain rest where c1: "calls s1 = calls s @ c # rest" by auto
  show ?thesis
  proof (cases r)
    case (Ok a)
    from traces_extends[OF assms(2), of a s1] obtain new where
      "calls (snd (f a s1)) = calls s1 @ new" ..
    with ms Ok c1 show ?thesis by (simp add: bnd_def)
  qed (use ms c1 in \<open>simp_all add: bnd_def\<close>)
qed

lemma starts_ext: "\<exists>rest. calls (snd (ext env c sem s)) = calls s @ c # rest"
  by (simp add: ext_def split: prod.split)

lemma starts_exec: "\<exists>rest. calls (snd (exec p s)) = calls s @ Exec p # rest"
  by (simp add: exec_def)

lemma traces_seqs: "(\<And>m. m \<in> set ms \<Longrightarrow> traces env m) \<Longrightarrow> traces env (seqs ms)"
  by (induction ms) (auto intro: traces_bnd traces_ret)

lemma starts_deleteImages:
  "\<exists>rest. calls (snd (deleteImages env uid s)) = calls s @ Exec (PathJoin [upload_path env, ''profile'']) # rest"
  unfolding deleteImages_def Let_def
  by (rule starts_bnd[where env = env], rule starts_exec)
     (intro traces_bnd sound_traces[OF sound_db(14)])

lemma starts_contentBody:
  "\<exists>rest. calls (snd (contentBody fuel env callerUid uid s))
            = calls s @ Exec (PathJoin [upload_path env, ''profile'']) # rest"
proof -
  let ?s1 = "s\<lparr>deletesInProgress := guard_set (deletesInProgress s) uid ''user.delete''\<rparr>"
  let ?rest = "[deletePosts fuel env callerUid uid, deleteTopics fuel env callerUid uid,
                deleteUploads env callerUid uid, deleteQueued fuel env uid]"
  have t: "traces env (seqs ?rest)"
    by (rule traces_seqs)
       (auto intro: sound_traces sound_deletePosts sound_deleteTopics sound_deleteUploads
          sound_deleteQueued)
  have "\<exists>rest. calls (snd (bnd (bnd (deleteImages env uid) (\<lambda>_. seqs ?rest))
                              (\<lambda>_. guardDelete uid) ?s1))
               = calls ?s1 @ Exec (PathJoin [upload_path env, ''profile'']) # rest"
    by (intro starts_bnd[where env = env] starts_deleteImages t traces_guardDelete)
  then show ?thesis
    by (simp add: contentBody_def contentSteps_def bnd_def[of "guardAssign uid ''user.delete''"]
        guardAssign_def)
qed

text \<open>
  C4 against the code: the validation is \<^verbatim>\<open>parseInt(uid, 10) <= 0\<close>.
  \<^verbatim>\<open>User.deleteContent\<close> fails with the invalid-uid error, leaving the state as it was
  (no guard entry, no call), exactly when the uid parses to a number that is zero or
  negative. A uid that does not parse (NaN) is not rejected: with no guard entry in
  the way the phase starts and issues its operations.
\<close>

theorem deleteContent_uid_validation:
  "(num_le0 (parseInt uid) \<longrightarrow> deleteContent fuel env callerUid uid s = (Throw InvalidUid, s))
   \<and> (fst (deleteContent fuel env callerUid uid s) = Throw InvalidUid \<longrightarrow> num_le0 (parseInt uid))
   \<and> (parseInt uid = None \<and> \<not> guard_truthy (guard_get (deletesInProgress s) uid) \<longrightarrow>
        (\<exists>rest. calls (snd (deleteContent fuel env callerUid uid s))
               = calls s @ Exec (PathJoin [upload_path env, ''profile'']) # rest))"
proof -
  have "fst (contentBody fuel env callerUid uid s) \<noteq> Throw InvalidUid"
    using traces_contentBody[of env fuel callerUid uid] traced_not_InvalidUid
    unfolding traces_def by blast
  then show ?thesis
    using starts_contentBody[of fuel env callerUid uid s]
    by (auto simp: deleteContent_unfold num_le0_def)
qed


lemma parseInt_abc: "parseInt ''abc'' = None"
  by code_simp

lemma abc_run:
  "fst (deleteContent (Suc 0) exEnv ''1'' ''abc'' emptyState) = Ok ()"
  "calls (snd (deleteContent (Suc 0) exEnv ''1'' ''abc'' emptyState)) =
     [Exec (PathJoin [''/uploads'', ''profile'']),
      Rimraf (PathJoin [''/uploads'', ''profile'', ''abc-profilecover*'']),
      Rimraf (PathJoin [''/uploads'', ''profile'', ''abc-profileavatar*'']),
      Db (GetSortedSetRange [''uid:abc:posts''] 0 499),
      Db (GetSortedSetRange [''uid:abc:topics''] 0 499),
      Db (GetSortedSetMembers ''uid:abc:uploads''),
      UserDeleteUpload ''1'' ''abc'' [],
      Db (GetSortedSetRange [''post:queue''] 0 499)]"
  by (simp_all add: content_run_defs parseInt_abc emptyState_def emptyStore_def exEnv_def
      cong: prod.case_cong_weak)

lemma parseInt_nonpositive: "parseInt ''0'' = Some 0" "parseInt ''-5'' = Some (- 5)"
  by code_simp+

text \<open>
  The failing input of C4: the uid "abc". The uids 0 and -5 are refused; "abc" runs the
  whole content phase against the store.
\<close>

theorem deleteContent_uid_validation_witness:
  "deleteContent (Suc 0) exEnv ''1'' ''0'' emptyState = (Throw InvalidUid, emptyState)
   \<and> deleteContent (Suc 0) exEnv ''1'' ''-5'' emptyState = (Throw InvalidUid, emptyState)
   \<and> parseInt ''abc'' = None
   \<and> fst (deleteContent (Suc 0) exEnv ''1'' ''abc'' emptyState) \<noteq> Throw InvalidUid
   \<and> fst (deleteContent (Suc 0) exEnv ''1'' ''abc'' emptyState) = Ok ()
   \<and> calls (snd (deleteContent (Suc 0) exEnv ''1'' ''abc'' emptyState)) =
     [Exec (PathJoin [''/uploads'', ''profile'']),
      Rimraf (PathJoin [''/uploads'', ''profile'', ''abc-profilecover*'']),
      Rimraf (PathJoin [''/uploads'', ''profile'', ''abc-profileavatar*'']),
      Db (GetSortedSetRange [''uid:abc:posts''] 0 499),
      Db (GetSortedSetRange [''uid:abc:topics''] 0 499),
      Db (GetSortedSetMembers ''uid:abc:uploads''),
      UserDeleteUpload ''1'' ''abc'' [],
      Db (GetSortedSetRange [''post:queue''] 0 499)]"
proof -
  have a: "deleteContent (Suc 0) exEnv ''1'' ''0'' emptyState = (Throw InvalidUid, emptyState)"
    using deleteContent_uid_validation[of "''0''" "Suc 0" exEnv "''1''" emptyState]
    by (simp add: parseInt_nonpositive num_le0_def)
  have b: "deleteContent (Suc 0) exEnv ''1'' ''-5'' emptyState = (Throw InvalidUid, emptyState)"
    using deleteContent_uid_validation[of "''-5''" "Suc 0" exEnv "''1''" emptyState]
    by (simp add: parseInt_nonpositive num_le0_def)
  have c: "fst (deleteContent (Suc 0) exEnv ''1'' ''abc'' emptyState) \<noteq> Throw InvalidUid"
    using deleteContent_uid_validation[of "''abc''" "Suc 0" exEnv "''1''" emptyState]
    by (auto simp: parseInt_abc num_le0_def)
  from a b c parseInt_abc abc_run show ?thesis
    by blast
qed

subsection \<open>The missing record\<close>

text \<open>
  C5: when the guard check passes and the two store calls succeed, a uid whose record is
  absent, or has no (or an empty) username, makes \<^verbatim>\<open>User.deleteAccount\<close> remove the
  guard entry and fail with the no-user error; the only calls issued are the removal
  from the leaderboard sets and the load of the record, so none of the later cleanup
  steps runs.
\<close>

theorem deleteAccount_no_user:
  assumes "guard_get (deletesInProgress s) uid \<noteq> Own ''user.deleteAccount''"
    and "\<not> rejects env (length (calls s)) (Db (SortedSetsRemove leaderboardSets uid))"
    and "\<not> rejects env (Suc (length (calls s))) (Db (GetObject (''user:'' @ uid)))"
    and "case hashes (db s) (''user:'' @ uid) of
           None \<Rightarrow> True | Some ud \<Rightarrow> \<not> truthy (map_of ud ''username'')"
  shows "deleteAccount env uid s =
           (Throw NoUser,
            s\<lparr>deletesInProgress :=
                 guard_delete (guard_set (deletesInProgress s) uid ''user.deleteAccount'') uid,
              db := zremove leaderboardSets uid (db s),
              calls := calls s @ [Db (SortedSetsRemove leaderboardSets uid),
                                  Db (GetObject (''user:'' @ uid))]\<rparr>)
         \<and> deletesInProgress (snd (deleteAccount env uid s)) uid = None"
proof -
  have eq: "deleteAccount env uid s =
           (Throw NoUser,
            s\<lparr>deletesInProgress :=
                 guard_delete (guard_set (deletesInProgress s) uid ''user.deleteAccount'') uid,
              db := zremove leaderboardSets uid (db s),
              calls := calls s @ [Db (SortedSetsRemove leaderboardSets uid),
                                  Db (GetObject (''user:'' @ uid))]\<rparr>)"
    using assms
    by (simp add: deleteAccount_unfold accountBody_loaded accountAfterLoad_def bnd_def
        guardDelete_def throw_def split: option.splits)
  show ?thesis
    by (simp add: eq guard_delete_def)
qed

theorem deleteAccount_no_user_witness:
  "deleteAccount exEnv ''42'' emptyState =
     (Throw NoUser,
      emptyState\<lparr>deletesInProgress :=
                   guard_delete (guard_set (deletesInProgress emptyState) ''42'' ''user.deleteAccount'') ''42'',
                 db := zremove leaderboardSets ''42'' (db emptyState),
                 calls := calls emptyState @ [Db (SortedSetsRemove leaderboardSets ''42''),
                                  Db (GetObject (''user:'' @ ''42''))]\<rparr>)
   \<and> deletesInProgress (snd (deleteAccount exEnv ''42'' emptyState)) ''42'' = None"
  by (rule deleteAccount_no_user)
     (simp_all add: emptyState_def emptyStore_def exEnv_def guard_get_def Object_prototype_props_def)

subsection \<open>No validation of the uid in the account phase\<close>

lemma starts_accountBody:
  "\<exists>rest. calls (snd (accountBody env uid s))
            = calls s @ Db (SortedSetsRemove leaderboardSets uid) # rest"
proof -
  let ?s1 = "s\<lparr>deletesInProgress := guard_set (deletesInProgress s) uid ''user.deleteAccount''\<rparr>"
  have "\<exists>rest. calls (snd (bnd (removeFromSortedSets env uid)
                  (\<lambda>_. bnd (getObject env (''user:'' @ uid))
                  (\<lambda>userData. accountAfterLoad env uid userData)) ?s1))
               = calls ?s1 @ Db (SortedSetsRemove leaderboardSets uid) # rest"
    unfolding removeFromSortedSets_def sortedSetsRemove_def
    by (intro starts_bnd[where env = env] starts_ext traces_bnd sound_traces[OF sound_db(3)]
        traces_accountAfterLoad)
  then show ?thesis
    by (simp add: accountBody_def bnd_def[of "guardAssign uid ''user.deleteAccount''"]
        guardAssign_def)
qed

text \<open>
  C10: \<^verbatim>\<open>User.deleteAccount\<close> never fails with the invalid-uid error, whatever the uid.
  When the guard check passes, its first call removes the uid from the leaderboard
  sorted sets; a uid with no record then fails with the no-user error, after that
  removal has taken effect and the record has been looked up.
\<close>

theorem deleteAccount_no_uid_validation:
  "fst (deleteAccount env uid s) \<noteq> Throw InvalidUid
   \<and> (guard_get (deletesInProgress s) uid \<noteq> Own ''user.deleteAccount'' \<longrightarrow>
        (\<exists>rest. calls (snd (deleteAccount env uid s))
                  = calls s @ Db (SortedSetsRemove leaderboardSets uid) # rest))
   \<and> (guard_get (deletesInProgress s) uid \<noteq> Own ''user.deleteAccount''
        \<and> \<not> rejects env (length (calls s)) (Db (SortedSetsRemove leaderboardSets uid))
        \<and> \<not> rejects env (Suc (length (calls s))) (Db (GetObject (''user:'' @ uid)))
        \<and> hashes (db s) (''user:'' @ uid) = None \<longrightarrow>
        fst (deleteAccount env uid s) = Throw NoUser
        \<and> calls (snd (deleteAccount env uid s))
            = calls s @ [Db (SortedSetsRemove leaderboardSets uid), Db (GetObject (''user:'' @ uid))]
        \<and> (\<forall>k. zsets (db (snd (deleteAccount env uid s))) k
                = (if k \<in> set leaderboardSets then removeAll uid (zsets (db s) k)
                   else zsets (db s) k)))"
proof -
  have "fst (accountBody env uid s) \<noteq> Throw InvalidUid"
    using traces_accountBody[of env uid] traced_not_InvalidUid
    unfolding traces_def by blast
  then have 1: "fst (deleteAccount env uid s) \<noteq> Throw InvalidUid"
    by (simp add: deleteAccount_unfold)
  have 2: "guard_get (deletesInProgress s) uid \<noteq> Own ''user.deleteAccount'' \<longrightarrow>
        (\<exists>rest. calls (snd (deleteAccount env uid s))
                  = calls s @ Db (SortedSetsRemove leaderboardSets uid) # rest)"
    using starts_accountBody[of env uid s] by (simp add: deleteAccount_unfold)
  have 3: "fst (deleteAccount env uid s) = Throw NoUser
        \<and> calls (snd (deleteAccount env uid s))
            = calls s @ [Db (SortedSetsRemove leaderboardSets uid), Db (GetObject (''user:'' @ uid))]
        \<and> (\<forall>k. zsets (db (snd (deleteAccount env uid s))) k
                = (if k \<in> set leaderboardSets then removeAll uid (zsets (db s) k)
                   else zsets (db s) k))"
    if "guard_get (deletesInProgress s) uid \<noteq> Own ''user.deleteAccount''"
      "\<not> rejects env (length (calls s)) (Db (SortedSetsRemove leaderboardSets uid))"
      "\<not> rejects env (Suc (length (calls s))) (Db (GetObject (''user:'' @ uid)))"
      "hashes (db s) (''user:'' @ uid) = None"
    using that
    by (simp add: deleteAccount_unfold accountBody_loaded accountAfterLoad_def bnd_def
        guardDelete_def throw_def zsets_zremove)
  from 1 2 3 show ?thesis by blast
qed

theorem deleteAccount_no_uid_validation_witness:
  "fst (deleteAccount exEnv ''0'' emptyState) = Throw NoUser
   \<and> fst (deleteAccount exEnv ''abc'' emptyState) = Throw NoUser
   \<and> calls (snd (deleteAccount exEnv ''-5'' emptyState))
       = [Db (SortedSetsRemove leaderboardSets ''-5''), Db (GetObject ''user:-5'')]"
proof -
  have h: "guard_get (deletesInProgress emptyState) u \<noteq> Own ''user.deleteAccount''
        \<and> \<not> rejects exEnv (length (calls emptyState)) (Db (SortedSetsRemove leaderboardSets u))
        \<and> \<not> rejects exEnv (Suc (length (calls emptyState))) (Db (GetObject (''user:'' @ u)))
        \<and> hashes (db emptyState) (''user:'' @ u) = None" for u
    by (simp add: emptyState_def emptyStore_def exEnv_def guard_get_def)
  from deleteAccount_no_uid_validation[of exEnv "''0''" emptyState] h[of "''0''"]
  have a: "fst (deleteAccount exEnv ''0'' emptyState) = Throw NoUser" by blast
  from deleteAccount_no_uid_validation[of exEnv "''abc''" emptyState] h[of "''abc''"]
  have b: "fst (deleteAccount exEnv ''abc'' emptyState) = Throw NoUser" by blast
  from deleteAccount_no_uid_validation[of exEnv "''-5''" emptyState] h[of "''-5''"]
  have c: "calls (snd (deleteAccount exEnv ''-5'' emptyState))
       = calls emptyState @ [Db (SortedSetsRemove leaderboardSets ''-5''), Db (GetObject (''user:'' @ ''-5''))]"
    by blast
  from a b c show ?thesis by (simp add: emptyState_def)
qed

subsection \<open>Profile media\<close>

lemma traced_rejected_at:
  assumes t: "traced env n (pre @ c # post) r"
    and r: "rejects env (n + length pre) c" and e: "\<not> isExec c"
  shows "r = Throw (Rejected c) \<and> post = []"
proof -
  have no: "\<not> norej env n (pre @ c # post @ more)" for more
    using r e by (simp add: norej_append)
  from no[of "[]"] have no': "\<not> norej env n (pre @ c # post)" by simp
  from t no' obtain c' where r': "r = Throw (Rejected c')"
    by (auto simp: traced_def split: result.splits error.splits)
  with t have l: "last (pre @ c # post) = c'" and b: "norej env n (butlast (pre @ c # post))"
    by (simp_all add: traced_def)
  have "post = []"
  proof (rule ccontr)
    assume "post \<noteq> []"
    then have "butlast (pre @ c # post) = pre @ c # butlast post"
      by (simp add: butlast_append)
    with b r e show False by (simp add: norej_append)
  qed
  with l r' show ?thesis by simp
qed

lemma deleteImages_result:
  "fst (deleteImages env uid s) =
     (if rejects env (Suc (length (calls s)))
           (Rimraf (PathJoin [upload_path env, ''profile'', uid @ ''-profilecover*'']))
      then Throw (Rejected (Rimraf (PathJoin [upload_path env, ''profile'', uid @ ''-profilecover*''])))
      else if rejects env (Suc (Suc (length (calls s))))
           (Rimraf (PathJoin [upload_path env, ''profile'', uid @ ''-profileavatar*'']))
      then Throw (Rejected (Rimraf (PathJoin [upload_path env, ''profile'', uid @ ''-profileavatar*''])))
      else Ok ())"
  by (simp add: deleteImages_def Let_def bnd_def exec_def rimraf_def ext_def)

text \<open>
  C3, as the code has it: \<^verbatim>\<open>deleteImages\<close> awaits both removals with no handler, so an
  error raised while removing the cover or avatar files is not swallowed. Whenever a
  removal call is rejected inside \<^verbatim>\<open>User.deleteContent\<close> or \<^verbatim>\<open>User.deleteAccount\<close>, the
  phase fails with that error and that call is its last one. \<^verbatim>\<open>deleteImages\<close> returns
  normally exactly when both removals succeed; the outcome of the file-count command
  does not matter.
\<close>

theorem rimraf_rejection_aborts:
  "(calls (snd (deleteContent fuel env callerUid uid s)) = calls s @ pre @ Rimraf p # post
      \<and> rejects env (length (calls s) + length pre) (Rimraf p) \<longrightarrow>
    fst (deleteContent fuel env callerUid uid s) = Throw (Rejected (Rimraf p)) \<and> post = [])
   \<and> (calls (snd (deleteAccount env uid s)) = calls s @ pre' @ Rimraf p' # post'
      \<and> rejects env (length (calls s) + length pre') (Rimraf p') \<longrightarrow>
    fst (deleteAccount env uid s) = Throw (Rejected (Rimraf p')) \<and> post' = [])
   \<and> fst (deleteImages env uid s) =
     (if rejects env (Suc (length (calls s)))
           (Rimraf (PathJoin [upload_path env, ''profile'', uid @ ''-profilecover*'']))
      then Throw (Rejected (Rimraf (PathJoin [upload_path env, ''profile'', uid @ ''-profilecover*''])))
      else if rejects env (Suc (Suc (length (calls s))))
           (Rimraf (PathJoin [upload_path env, ''profile'', uid @ ''-profileavatar*'']))
      then Throw (Rejected (Rimraf (PathJoin [upload_path env, ''profile'', uid @ ''-profileavatar*''])))
      else Ok ())"
proof -
  have c: "fst (deleteContent fuel env callerUid uid s) = Throw (Rejected (Rimraf p)) \<and> post = []"
    if h: "calls (snd (deleteContent fuel env callerUid uid s)) = calls s @ pre @ Rimraf p # post"
      "rejects env (length (calls s) + length pre) (Rimraf p)"
  proof -
    from h(1) have body: "deleteContent fuel env callerUid uid s = contentBody fuel env callerUid uid s"
      by (auto simp: deleteContent_unfold split: if_splits)
    from traces_contentBody[of env fuel callerUid uid] obtain new where
      n: "calls (snd (contentBody fuel env callerUid uid s)) = calls s @ new"
      and t: "traced env (length (calls s)) new (fst (contentBody fuel env callerUid uid s))"
      unfolding traces_def by blast
    from n h(1) body have "new = pre @ Rimraf p # post" by simp
    with t h(2) show ?thesis
      using traced_rejected_at[of env "length (calls s)" pre "Rimraf p" post]
      by (simp add: body isExec_def)
  qed
  have a: "fst (deleteAccount env uid s) = Throw (Rejected (Rimraf p')) \<and> post' = []"
    if h: "calls (snd (deleteAccount env uid s)) = calls s @ pre' @ Rimraf p' # post'"
      "rejects env (length (calls s) + length pre') (Rimraf p')"
  proof -
    from h(1) have body: "deleteAccount env uid s = accountBody env uid s"
      by (auto simp: deleteAccount_unfold split: if_splits)
    from traces_accountBody[of env uid] obtain new where
      n: "calls (snd (accountBody env uid s)) = calls s @ new"
      and t: "traced env (length (calls s)) new (fst (accountBody env uid s))"
      unfolding traces_def by blast
    from n h(1) body have "new = pre' @ Rimraf p' # post'" by simp
    with t h(2) show ?thesis
      using traced_rejected_at[of env "length (calls s)" pre' "Rimraf p'" post']
      by (simp add: body isExec_def)
  qed
  from c a deleteImages_result[of env uid s] show ?thesis
    by blast
qed

lemma coverFails_run:
  "fst (deleteContent (Suc 0) coverFails ''1'' ''42'' alice42)
     = Throw (Rejected (Rimraf (PathJoin [''/uploads'', ''profile'', ''42-profilecover*''])))"
  "calls (snd (deleteContent (Suc 0) coverFails ''1'' ''42'' alice42))
     = [Exec (PathJoin [''/uploads'', ''profile'']),
        Rimraf (PathJoin [''/uploads'', ''profile'', ''42-profilecover*''])]"
  by (simp_all add: content_run_defs parseInt_42 alice42_def aliceStore_def emptyStore_def
      coverFails_def cong: prod.case_cong_weak)

text \<open>
  C3 fails as stated: uid 42 has three posts, and the removal of the cover files is
  rejected; \<^verbatim>\<open>User.deleteContent\<close> fails with that error after two calls, and no post
  is purged.
\<close>

theorem deleteContent_aborted_by_rimraf:
  "zsets (db alice42) ''uid:42:posts'' = [''p1'', ''p2'', ''p3'']
   \<and> fst (deleteContent (Suc 0) coverFails ''1'' ''42'' alice42)
     = Throw (Rejected (Rimraf (PathJoin [''/uploads'', ''profile'', ''42-profilecover*''])))
   \<and> calls (snd (deleteContent (Suc 0) coverFails ''1'' ''42'' alice42))
     = [Exec (PathJoin [''/uploads'', ''profile'']),
        Rimraf (PathJoin [''/uploads'', ''profile'', ''42-profilecover*''])]"
  by (simp add: coverFails_run) (simp add: alice42_def)

theorem rimraf_rejection_aborts_witness:
  "fst (deleteContent (Suc 0) coverFails ''1'' ''42'' alice42)
     = Throw (Rejected (Rimraf (PathJoin [''/uploads'', ''profile'', ''42-profilecover*''])))
   \<and> fst (deleteImages exEnv ''42'' alice42) = Ok ()"
proof -
  let ?p = "PathJoin [''/uploads'', ''profile'', ''42-profilecover*'']"
  have 0: "calls alice42 = []"
    by (simp add: alice42_def)
  have 1: "calls (snd (deleteContent (Suc 0) coverFails ''1'' ''42'' alice42))
        = calls alice42 @ [Exec (PathJoin [''/uploads'', ''profile''])] @ Rimraf ?p # []"
    by (simp add: coverFails_run 0)
  have 2: "rejects coverFails (length (calls alice42) + length [Exec (PathJoin [''/uploads'', ''profile''])])
             (Rimraf ?p)"
    by (simp add: coverFails_def)
  from rimraf_rejection_aborts[of "Suc 0" coverFails "''1''" "''42''" alice42
         "[Exec (PathJoin [''/uploads'', ''profile''])]" ?p "[]"] 1 2
  have a: "fst (deleteContent (Suc 0) coverFails ''1'' ''42'' alice42) = Throw (Rejected (Rimraf ?p))"
    by blast
  from rimraf_rejection_aborts[of "Suc 0" exEnv "''1''" "''42''" alice42]
  have b: "fst (deleteImages exEnv ''42'' alice42) = Ok ()"
    by (simp add: exEnv_def)
  from a b show ?thesis by blast
qed

subsection \<open>Order of the content purge\<close>

lemma inStage_ret: "inStage k uid (ret a)"
  by (simp add: inStage_def ret_def)

lemma inStage_throw: "inStage k uid (throw e)"
  by (simp add: inStage_def throw_def)

lemma inStage_fuel: "inStage k uid (\<lambda>s. (OutOfFuel, s))"
  by (simp add: inStage_def)

lemma inStage_ext: "stage uid c = k \<Longrightarrow> inStage k uid (ext env c sem)"
  by (auto simp: inStage_def ext_def split: prod.split)

lemma inStage_exec: "inStage 0 uid (exec p)"
  by (simp add: inStage_def exec_def stage_def)

lemma inStage_bnd:
  assumes "inStage k uid m" and "\<And>a. inStage k uid (f a)"
  shows "inStage k uid (bnd m f)"
  unfolding inStage_def
proof
  fix s
  obtain r s1 where ms: "m s = (r, s1)" by (cases "m s")
  with assms(1) obtain new1 where c1: "calls s1 = calls s @ new1"
    and a1: "list_all (\<lambda>c. stage uid c = k) new1"
    unfolding inStage_def by (metis snd_conv)
  show "\<exists>new. calls (snd (bnd m f s)) = calls s @ new \<and> list_all (\<lambda>c. stage uid c = k) new"
  proof (cases r)
    case (Ok a)
    from assms(2)[of a] obtain new2 where "calls (snd (f a s1)) = calls s1 @ new2"
      and "list_all (\<lambda>c. stage uid c = k) new2"
      unfolding inStage_def by blast
    with ms Ok c1 a1 show ?thesis
      by (auto simp: bnd_def)
  qed (use ms c1 a1 in \<open>auto simp: bnd_def\<close>)
qed

lemma inStage_eachSeries: "(\<And>x. inStage k uid (f x)) \<Longrightarrow> inStage k uid (eachSeries xs f)"
  by (induction xs) (auto intro: inStage_bnd inStage_ret)

lemma inStage_loop:
  assumes "\<And>ids acc. inStage k uid (process ids acc)"
    and "\<And>a b. stage uid (Db (GetSortedSetRange [setKey] a b)) = k"
  shows "inStage k uid (processSortedSet_loop fuel env setKey process opts start acc)"
proof (induction fuel arbitrary: start acc)
  case 0
  show ?case by (simp add: inStage_fuel)
next
  case (Suc fuel)
  show ?case
    by (auto simp: Let_def getSortedSetRange_def
        intro!: inStage_bnd inStage_ext inStage_ret assms Suc)
qed

lemma inStage_deleteImages: "inStage 0 uid (deleteImages env uid)"
  by (auto simp: deleteImages_def Let_def rimraf_def stage_def
      intro!: inStage_bnd inStage_exec inStage_ext)

lemma inStage_deletePosts: "inStage 1 uid (deletePosts fuel env callerUid uid)"
  unfolding deletePosts_def processSortedSet_def
  by (rule inStage_loop) (auto simp: collab_def stage_def intro!: inStage_ext)

lemma inStage_deleteTopics: "inStage 2 uid (deleteTopics fuel env callerUid uid)"
  unfolding deleteTopics_def processSortedSet_def
  by (rule inStage_loop) (auto simp: collab_def stage_def intro!: inStage_eachSeries inStage_ext)

lemma inStage_deleteUploads: "inStage 3 uid (deleteUploads env callerUid uid)"
  by (auto simp: deleteUploads_def getSortedSetMembers_def collab_def stage_def
      intro!: inStage_bnd inStage_ext)

lemma inStage_deleteQueued: "inStage 4 uid (deleteQueued fuel env uid)"
  unfolding deleteQueued_def processSortedSet_def
  by (intro inStage_bnd inStage_loop inStage_eachSeries)
     (auto simp: queuedHandler_def getObjects_def collab_def stage_def
        intro!: inStage_bnd inStage_ext inStage_ret inStage_throw split: option.split)

lemma audible_starts:
  "(\<And>s. \<exists>rest. calls (snd (m s)) = calls s @ c # rest) \<Longrightarrow> audible m"
  unfolding audible_def
proof
  fix s
  assume "\<And>s. \<exists>rest. calls (snd (m s)) = calls s @ c # rest"
  then obtain rest where "calls (snd (m s)) = calls s @ c # rest" by blast
  then show "case fst (m s) of Ok _ \<Rightarrow> calls (snd (m s)) \<noteq> calls s | _ \<Rightarrow> True"
    by (simp split: result.split)
qed

lemma audible_fuel: "audible (\<lambda>s. (OutOfFuel, s))"
  by (simp add: audible_def)

lemma audible_loop:
  assumes "\<And>ids acc. sound env (process ids acc)"
  shows "audible (processSortedSet_loop fuel env setKey process opts start acc)"
proof (cases fuel)
  case 0
  then show ?thesis by (simp add: audible_fuel)
next
  case (Suc n)
  show ?thesis
    unfolding Suc processSortedSet_loop.simps Let_def getSortedSetRange_def
    by (rule audible_starts, rule starts_bnd[where env = env], rule starts_ext)
       (auto intro!: sound_traces sound_ret sound_bnd assms sound_loop)
qed

lemma audible_bnd:
  assumes a: "audible m" and t: "traces env m" and f: "\<And>a. traces env (f a)"
  shows "audible (bnd m f)"
  unfolding audible_def
proof
  fix s
  obtain r s1 where ms: "m s = (r, s1)" by (cases "m s")
  from traces_extends[OF t, of s] ms obtain new1 where c1: "calls s1 = calls s @ new1" by auto
  show "case fst (bnd m f s) of Ok _ \<Rightarrow> calls (snd (bnd m f s)) \<noteq> calls s | _ \<Rightarrow> True"
  proof (cases r)
    case (Ok x)
    with a ms have "calls s1 \<noteq> calls s"
      unfolding audible_def by (auto dest: spec[of _ s])
    with c1 have n: "new1 \<noteq> []" by simp
    from traces_extends[OF f, of x s1] obtain new2 where
      "calls (snd (f x s1)) = calls s1 @ new2" ..
    with ms Ok c1 n show ?thesis
      by (simp add: bnd_def split: result.split)
  qed (use ms in \<open>simp_all add: bnd_def\<close>)
qed

lemma audible_steps:
  "audible (deleteImages env uid)"
  "audible (deletePosts fuel env callerUid uid)"
  "audible (deleteTopics fuel env callerUid uid)"
  "audible (deleteUploads env callerUid uid)"
  "audible (deleteQueued fuel env uid)"
proof -
  show "audible (deleteImages env uid)"
    by (rule audible_starts) (rule starts_deleteImages)
  show "audible (deletePosts fuel env callerUid uid)"
    unfolding deletePosts_def processSortedSet_def
    by (rule audible_loop[where env = env]) (simp add: sound_collab isExec_def)
  show "audible (deleteTopics fuel env callerUid uid)"
    unfolding deleteTopics_def processSortedSet_def
    by (rule audible_loop[where env = env])
       (auto intro!: sound_eachSeries sound_collab simp: isExec_def)
  show "audible (deleteUploads env callerUid uid)"
    unfolding deleteUploads_def getSortedSetMembers_def
    by (rule audible_starts, rule starts_bnd[where env = env], rule starts_ext)
       (simp add: sound_traces sound_collab isExec_def)
  show "audible (deleteQueued fuel env uid)"
    unfolding deleteQueued_def processSortedSet_def
    by (rule audible_bnd[where env = env], rule audible_loop[where env = env])
       (auto intro!: sound_queuedHandler sound_traces sound_loop sound_eachSeries sound_collab
          simp: isExec_def)
qed

lemma seqs_staged:
  assumes "stagedList k uid ms"
  shows "\<exists>new. calls (snd (seqs ms s)) = calls s @ new
           \<and> sorted (map (stage uid) new)
           \<and> list_all (\<lambda>c. k \<le> stage uid c \<and> stage uid c < k + length ms) new
           \<and> (fst (seqs ms s) = Ok () \<longrightarrow> stage uid ` set new = {k..<k + length ms})"
  using assms
proof (induction ms arbitrary: k s)
  case Nil
  show ?case by (simp add: ret_def)
next
  case (Cons m ms)
  from Cons.prems have st: "inStage k uid m" and au: "audible m" and rest: "stagedList (Suc k) uid ms"
    by simp_all
  obtain r s1 where ms: "m s = (r, s1)" by (cases "m s")
  from st ms obtain new1 where c1: "calls s1 = calls s @ new1"
    and a1: "list_all (\<lambda>c. stage uid c = k) new1"
    unfolding inStage_def by (metis snd_conv)
  from a1 have s1: "sorted (map (stage uid) new1)"
    by (induction new1) (auto simp: list_all_iff)
  from a1 have b1: "list_all (\<lambda>c. k \<le> stage uid c \<and> stage uid c < k + length (m # ms)) new1"
    by (auto simp: list_all_iff)
  show ?case
  proof (cases r)
    case (Ok u)
    from Cons.IH[OF rest, of s1] obtain new2 where c2: "calls (snd (seqs ms s1)) = calls s1 @ new2"
      and s2: "sorted (map (stage uid) new2)"
      and b2: "list_all (\<lambda>c. Suc k \<le> stage uid c \<and> stage uid c < Suc k + length ms) new2"
      and i2: "fst (seqs ms s1) = Ok () \<longrightarrow> stage uid ` set new2 = {Suc k..<Suc k + length ms}"
      by blast
    from au ms Ok c1 have ne: "new1 \<noteq> []"
      unfolding audible_def by (auto dest: spec[of _ s])
    with a1 have i1: "stage uid ` set new1 = {k}"
      by (cases new1) (auto simp: list_all_iff)
    have run: "seqs (m # ms) s = seqs ms s1"
      using ms Ok by (simp add: bnd_def)
    have "sorted (map (stage uid) (new1 @ new2))"
      using s1 s2 a1 b2 by (auto simp: sorted_append list_all_iff)
    moreover have "list_all (\<lambda>c. k \<le> stage uid c \<and> stage uid c < k + length (m # ms)) (new1 @ new2)"
      using b1 b2 by (auto simp: list_all_iff)
    moreover have "fst (seqs ms s1) = Ok () \<longrightarrow>
        stage uid ` set (new1 @ new2) = {k..<k + length (m # ms)}"
      using i1 i2 by (auto simp: image_Un)
    ultimately show ?thesis
      using c1 c2 run by auto
  next
    case (Throw e)
    with ms c1 s1 b1 show ?thesis by (auto simp: bnd_def)
  next
    case OutOfFuel
    with ms c1 s1 b1 show ?thesis by (auto simp: bnd_def)
  qed
qed

lemma staged_contentSteps: "stagedList 0 uid (contentSteps fuel env callerUid uid)"
proof -
  have "inStage (Suc 0) uid (deletePosts fuel env callerUid uid)"
    using inStage_deletePosts[of uid fuel env callerUid] by simp
  moreover have "inStage (Suc (Suc 0)) uid (deleteTopics fuel env callerUid uid)"
    using inStage_deleteTopics[of uid fuel env callerUid] by (simp add: eval_nat_numeral)
  moreover have "inStage (Suc (Suc (Suc 0))) uid (deleteUploads env callerUid uid)"
    using inStage_deleteUploads[of uid env callerUid] by (simp add: eval_nat_numeral)
  moreover have "inStage (Suc (Suc (Suc (Suc 0)))) uid (deleteQueued fuel env uid)"
    using inStage_deleteQueued[of uid fuel env] by (simp add: eval_nat_numeral)
  ultimately show ?thesis
    by (simp add: contentSteps_def inStage_deleteImages audible_steps)
qed

lemma contentBody_seqs:
  "calls (snd (contentBody fuel env callerUid uid s))
     = calls (snd (seqs (contentSteps fuel env callerUid uid)
                (s\<lparr>deletesInProgress := guard_set (deletesInProgress s) uid ''user.delete''\<rparr>)))"
  "fst (contentBody fuel env callerUid uid s)
     = fst (seqs (contentSteps fuel env callerUid uid)
                (s\<lparr>deletesInProgress := guard_set (deletesInProgress s) uid ''user.delete''\<rparr>))"
  by (simp_all add: contentBody_def bnd_def guardAssign_def guardDelete_def
      split: prod.split result.split)

text \<open>
  C9: for a uid that passes the validation and finds no guard entry, every call that
  \<^verbatim>\<open>User.deleteContent\<close> issues belongs to one of its five sub-operations, and in the
  sequence of calls all calls of images come first, then those of posts, topics, uploads
  and queued submissions (the stages 0 to 4 never decrease). A normal return has run
  all five. When a call rejects, the phase fails with that error and that call is the
  last one: no later step runs.
\<close>

theorem deleteContent_order:
  assumes "\<not> num_le0 (parseInt uid)"
    and "\<not> guard_truthy (guard_get (deletesInProgress s) uid)"
  shows "\<exists>new. calls (snd (deleteContent fuel env callerUid uid s)) = calls s @ new
           \<and> sorted (map (stage uid) new)
           \<and> list_all (\<lambda>c. stage uid c < 5) new
           \<and> (fst (deleteContent fuel env callerUid uid s) = Ok ()
                \<longrightarrow> stage uid ` set new = {0, 1, 2, 3, 4})
           \<and> (\<forall>c. fst (deleteContent fuel env callerUid uid s) = Throw (Rejected c)
                \<longrightarrow> new \<noteq> [] \<and> last new = c)"
proof -
  let ?s1 = "s\<lparr>deletesInProgress := guard_set (deletesInProgress s) uid ''user.delete''\<rparr>"
  have body: "deleteContent fuel env callerUid uid s = contentBody fuel env callerUid uid s"
    using assms by (simp add: deleteContent_unfold)
  have "\<exists>new. calls (snd (seqs (contentSteps fuel env callerUid uid) ?s1)) = calls ?s1 @ new
           \<and> sorted (map (stage uid) new)
           \<and> list_all (\<lambda>c. 0 \<le> stage uid c
                  \<and> stage uid c < 0 + length (contentSteps fuel env callerUid uid)) new
           \<and> (fst (seqs (contentSteps fuel env callerUid uid) ?s1) = Ok () \<longrightarrow>
                stage uid ` set new = {0..<0 + length (contentSteps fuel env callerUid uid)})"
    by (rule seqs_staged[OF staged_contentSteps])
  then obtain new where c: "calls (snd (seqs (contentSteps fuel env callerUid uid) ?s1)) = calls s @ new"
    and so: "sorted (map (stage uid) new)"
    and b: "list_all (\<lambda>c. 0 \<le> stage uid c \<and> stage uid c < 0 + length (contentSteps fuel env callerUid uid)) new"
    and i: "fst (seqs (contentSteps fuel env callerUid uid) ?s1) = Ok () \<longrightarrow>
            stage uid ` set new = {0..<0 + length (contentSteps fuel env callerUid uid)}"
    by auto
  have len: "length (contentSteps fuel env callerUid uid) = 5"
    by (simp add: contentSteps_def)
  have set5: "{0..<5} = {0, 1, 2, 3, 4::nat}"
    by auto
  from traces_contentBody[of env fuel callerUid uid] obtain new' where
    n': "calls (snd (contentBody fuel env callerUid uid s)) = calls s @ new'"
    and t: "traced env (length (calls s)) new' (fst (contentBody fuel env callerUid uid s))"
    unfolding traces_def by blast
  from n' c have same: "new' = new"
    by (simp add: contentBody_seqs)
  have last: "\<forall>c. fst (contentBody fuel env callerUid uid s) = Throw (Rejected c)
                \<longrightarrow> new \<noteq> [] \<and> last new = c"
    using t same by (auto simp: traced_def)
  show ?thesis
    using c so b i last
    by (intro exI[of _ new]) (simp add: body contentBody_seqs len set5)
qed


lemma alice42_run:
  "fst (deleteContent (Suc 0) exEnv ''1'' ''42'' alice42) = Ok ()"
  "calls (snd (deleteContent (Suc 0) exEnv ''1'' ''42'' alice42)) =
     [Exec (PathJoin [''/uploads'', ''profile'']),
      Rimraf (PathJoin [''/uploads'', ''profile'', ''42-profilecover*'']),
      Rimraf (PathJoin [''/uploads'', ''profile'', ''42-profileavatar*'']),
      Db (GetSortedSetRange [''uid:42:posts''] 0 499),
      PostsPurge [''p1'', ''p2'', ''p3''] ''1'',
      Db (GetSortedSetRange [''uid:42:topics''] 0 499),
      Db (GetSortedSetMembers ''uid:42:uploads''),
      UserDeleteUpload ''1'' ''42'' [],
      Db (GetSortedSetRange [''post:queue''] 0 499)]"
  by (simp_all add: content_run_defs parseInt_42 alice42_def aliceStore_def emptyStore_def
      exEnv_def cong: prod.case_cong_weak)

theorem deleteContent_order_witness:
  "calls (snd (deleteContent (Suc 0) exEnv ''1'' ''42'' alice42)) =
     [Exec (PathJoin [''/uploads'', ''profile'']),
      Rimraf (PathJoin [''/uploads'', ''profile'', ''42-profilecover*'']),
      Rimraf (PathJoin [''/uploads'', ''profile'', ''42-profileavatar*'']),
      Db (GetSortedSetRange [''uid:42:posts''] 0 499),
      PostsPurge [''p1'', ''p2'', ''p3''] ''1'',
      Db (GetSortedSetRange [''uid:42:topics''] 0 499),
      Db (GetSortedSetMembers ''uid:42:uploads''),
      UserDeleteUpload ''1'' ''42'' [],
      Db (GetSortedSetRange [''post:queue''] 0 499)]
   \<and> sorted (map (stage ''42'') (calls (snd (deleteContent (Suc 0) exEnv ''1'' ''42'' alice42))))
   \<and> stage ''42'' ` set (calls (snd (deleteContent (Suc 0) exEnv ''1'' ''42'' alice42)))
       = {0, 1, 2, 3, 4}"
proof -
  have h1: "\<not> num_le0 (parseInt ''42'')"
    by (simp add: parseInt_42 num_le0_def)
  have h2: "\<not> guard_truthy (guard_get (deletesInProgress alice42) ''42'')"
    by (simp add: alice42_def guard_get_def guard_truthy_def Object_prototype_props_def)
  have c0: "calls alice42 = []"
    by (simp add: alice42_def)
  from deleteContent_order[OF h1 h2, of "Suc 0" exEnv "''1''"] obtain new where
    n: "calls (snd (deleteContent (Suc 0) exEnv ''1'' ''42'' alice42)) = calls alice42 @ new"
    and s: "sorted (map (stage ''42'') new)"
    and i: "fst (deleteContent (Suc 0) exEnv ''1'' ''42'' alice42) = Ok ()
              \<longrightarrow> stage ''42'' ` set new = {0, 1, 2, 3, 4}"
    by blast
  from n c0 have "new = calls (snd (deleteContent (Suc 0) exEnv ''1'' ''42'' alice42))"
    by simp
  with s i alice42_run(1) have
    "sorted (map (stage ''42'') (calls (snd (deleteContent (Suc 0) exEnv ''1'' ''42'' alice42))))"
    "stage ''42'' ` set (calls (snd (deleteContent (Suc 0) exEnv ''1'' ''42'' alice42)))
       = {0, 1, 2, 3, 4}"
    by simp_all
  with alice42_run(2) show ?thesis
    by blast
qed

subsection \<open>The uniqueness indices\<close>

lemma bnd_ret_left: "bnd (ret a) f = f a"
  by (rule ext) (simp add: bnd_def ret_def)

lemma bnd_assoc: "bnd (bnd m f) g = bnd m (\<lambda>a. bnd (f a) g)"
  by (rule ext) (simp add: bnd_def split: prod.split result.split)

lemma seqs_append: "seqs (xs @ ys) = bnd (seqs xs) (\<lambda>_. seqs ys)"
  by (induction xs) (simp_all add: bnd_ret_left bnd_assoc)

lemma seqs_issues:
  assumes pre: "succeeds (seqs pre)" "traces env (seqs pre)"
    and post: "traces env (seqs post)"
  shows "c \<in> set (calls (snd (seqs (pre @ ext env c sem # post) s)))"
proof -
  obtain r s1 where run: "seqs pre s = (r, s1)" by (cases "seqs pre s")
  with succeeds_Ok[OF pre(1), of s] have r: "r = Ok ()" by auto
  have "\<exists>rest. calls (snd (bnd (ext env c sem) (\<lambda>_. seqs post) s1)) = calls s1 @ c # rest"
    by (intro starts_bnd[where env = env] starts_ext post)
  then show ?thesis
    using run r by (auto simp: seqs_append bnd_def[of "seqs pre"])
qed

lemma accountSteps_split:
  "accountSteps env uid ud =
     [collab env (HooksFire ''static:user.delete'' uid ud), deleteVotes env uid,
      deleteChats env uid, collab env (RevokeAllSessions uid)]
     @ ext env (Db (SortedSetRemoveBulk (bulkRemove uid ud))) (\<lambda>d. ((), zremoveBulk (bulkRemove uid ud) d))
     # drop 5 (accountSteps env uid ud)"
  by (simp add: accountSteps_def sortedSetRemoveBulk_def)

lemma bulkRemove_issued:
  assumes q: "\<forall>n c. \<not> rejects env n c"
    and g: "guard_get (deletesInProgress s) uid \<noteq> Own ''user.deleteAccount''"
    and r: "hashes (db s) (''user:'' @ uid) = Some ud" "truthy (map_of ud ''username'')"
  shows "Db (SortedSetRemoveBulk (bulkRemove uid ud)) \<in> set (calls (snd (deleteAccount env uid s)))"
proof -
  define s2 where "s2 = s\<lparr>deletesInProgress := guard_set (deletesInProgress s) uid ''user.deleteAccount'',
                db := zremove leaderboardSets uid (db s),
                calls := calls s @ [Db (SortedSetsRemove leaderboardSets uid),
                                    Db (GetObject (''user:'' @ uid))]\<rparr>"
  let ?pre = "[collab env (HooksFire ''static:user.delete'' uid ud), deleteVotes env uid,
      deleteChats env uid, collab env (RevokeAllSessions uid)]"
  have p1: "succeeds (seqs ?pre)"
    by (rule succeeds_seqs)
       (auto simp: collab_def db_defs deleteVotes_def deleteChats_def
          intro!: succeeds_bnd succeeds_ext[OF q] succeeds_eachSeries)
  have p2: "traces env (seqs ?pre)"
    by (rule traces_seqs)
       (auto simp: isExec_def intro!: sound_traces sound_collab sound_deleteVotes sound_deleteChats)
  have p3: "traces env (seqs (drop 5 (accountSteps env uid ud)))"
    by (rule traces_seqs)
       (auto simp: accountSteps_def isExec_def intro!: sound_traces sound_collab sound_db
          sound_deleteUserIps sound_deleteUserFromFollowers sound_followed sound_deleteImages)
  have in_steps: "Db (SortedSetRemoveBulk (bulkRemove uid ud))
                    \<in> set (calls (snd (seqs (accountSteps env uid ud) s2)))"
    by (subst accountSteps_split) (rule seqs_issues[OF p1 p2 p3])
  have "deleteAccount env uid s = accountAfterLoad env uid (Some ud) s2"
    using q g r(1) by (simp add: deleteAccount_unfold accountBody_loaded s2_def)
  then have "calls (snd (deleteAccount env uid s)) = calls (snd (seqs (accountSteps env uid ud) s2))"
    using r(2)
    by (simp add: accountAfterLoad_def bnd_def guardDelete_def ret_def
        split: prod.split result.split)
  with in_steps show ?thesis by simp
qed

text \<open>
  C8, as the code has it: the bulk removal list always holds the entries for
  username:uid, username:sorted, userslug:uid and fullname:uid (the last with an
  undefined member when the record has no fullname); the entries for email:uid and
  email:sorted are added only when the record has an email, and the entry for
  fullname:sorted only when it has a fullname. A successful \<^verbatim>\<open>User.deleteAccount\<close> hands
  this list to the store's bulk removal.
\<close>

theorem bulkRemove_entries:
  "map fst (bulkRemove uid userData)
     = [''username:uid'', ''username:sorted'', ''userslug:uid'', ''fullname:uid'']
       @ (if truthy (map_of userData ''email'') then [''email:uid'', ''email:sorted''] else [])
       @ (if truthy (map_of userData ''fullname'') then [''fullname:sorted''] else [])
   \<and> (''fullname:uid'', map_of userData ''fullname'') \<in> set (bulkRemove uid userData)
   \<and> ((\<forall>n c. \<not> rejects env n c)
        \<and> guard_get (deletesInProgress s) uid \<noteq> Own ''user.deleteAccount''
        \<and> hashes (db s) (''user:'' @ uid) = Some userData
        \<and> truthy (map_of userData ''username'') \<longrightarrow>
      Db (SortedSetRemoveBulk (bulkRemove uid userData))
        \<in> set (calls (snd (deleteAccount env uid s))))"
  using bulkRemove_issued[of env s uid userData]
  by (simp add: bulkRemove_def)

theorem bulkRemove_entries_witness:
  "map fst (bulkRemove ''42'' [(''username'', ''alice'')])
     = [''username:uid'', ''username:sorted'', ''userslug:uid'', ''fullname:uid'']
   \<and> (''fullname:uid'', None) \<in> set (bulkRemove ''42'' [(''username'', ''alice'')])
   \<and> Db (SortedSetRemoveBulk (bulkRemove ''42'' [(''username'', ''alice'')]))
        \<in> set (calls (snd (deleteAccount exEnv ''42'' alice42)))"
proof -
  have "(\<forall>n c. \<not> rejects exEnv n c)
        \<and> guard_get (deletesInProgress alice42) ''42'' \<noteq> Own ''user.deleteAccount''
        \<and> hashes (db alice42) (''user:'' @ ''42'') = Some [(''username'', ''alice'')]
        \<and> truthy (map_of [(''username'', ''alice'')] ''username'')"
    by (simp add: exEnv_def alice42_def aliceStore_def emptyStore_def guard_get_def
        Object_prototype_props_def truthy_def)
  with bulkRemove_entries[of "''42''" "[(''username'', ''alice'')]" exEnv alice42]
  show ?thesis
    by (simp add: truthy_def)
qed

text \<open>
  C8 fails as stated: for a record with a username only, the list still has a
  fullname entry (fullname:uid, with an undefined member).
\<close>

theorem bulkRemove_has_fullname_entry:
  "map_of [(''username'', ''alice'')] ''fullname'' = None
   \<and> bulkRemove ''42'' [(''username'', ''alice'')]
      = [(''username:uid'', Some ''alice''), (''username:sorted'', Some ''alice:42''),
         (''userslug:uid'', None), (''fullname:uid'', None)]"
  by (simp add: bulkRemove_def truthy_def strField_def toLowerCase_def lowerChar_def)

subsection \<open>Follower counts\<close>






















subsection \<open>Queued submissions\<close>











subsection \<open>Decimal rendering and parsing\<close>













subsection \<open>The queue of 1200 entries\<close>












end
